theory Spec2Isabelle
  imports Complex_Main "HOL-Library.AList" "HOL-Library.Multiset"
begin

section \<open>Data model of the swarm visualisation\<close>

text \<open>
  The development embeds the component \<open>SwarmVisualization\<close> (the React component that
  owns the Three.js scene): its three effects (scene initialisation, agent update,
  transaction-edge update), the click handler and the per-frame \<open>animate\<close> callback.

  Conventions of the embedding.
  \<^item> JavaScript numbers are read as real numbers; the only non-finite value that can
    be stored in a modelled field is the \<open>NaN\<close> of a position coordinate (an empty role
    group divides by zero), and that case is kept as a value of its own.
  \<^item> Every Three.js object allocated by \<open>new THREE.Mesh\<close> carries a reference number
    (\<open>obj_ref\<close>, \<open>tube_ref\<close>, \<open>particle_ref\<close>) taken from an allocation counter; two
    JavaScript references are the same object exactly when the numbers agree.
  \<^item> \<open>Date.now()\<close> is a parameter \<open>now\<close> (milliseconds, an integer) of every operation
    that reads the clock; one operation reads one value.
  \<^item> The field \<open>scene\<close> lists the agent meshes and edge tubes among the scene's
    children. Lights, the grid and the travelling marker spheres (which are added and
    removed by a callback chain of their own) are not listed.
  \<^item> The names \<open>from\<close> and \<open>timestamp\<close> of a transaction are written \<open>tx_from\<close> and
    \<open>tx_timestamp\<close>; the \<open>from\<close> of a tracked edge is \<open>edge_from\<close>.
\<close>

subsection \<open>Incoming data\<close>

text \<open>
  An agent as delivered in a snapshot. Fields that may be absent are options. The fields
  that only the info panel prints (completed tasks, balance, skill level, current task)
  are read by no effect and by no handler, and are left out.
\<close>

record agent =
  agent_id :: string
  role :: string
  status :: "string option"
  active_tasks :: "real option"
  reputation :: "real option"
  specialization :: "string option"

record tx =
  tx_from :: string
  msg_type :: string
  tx_timestamp :: real

record roster =
  coordinators :: "agent list option"
  solvers :: "agent list option"

record swarm_data =
  agents :: "roster option"
  transactions :: "tx list option"

subsection \<open>Scene objects\<close>

datatype jsnum = Num real | NaN

type_synonym vec3 = "jsnum \<times> jsnum \<times> jsnum"

record mesh =
  obj_ref :: nat
  position :: vec3
  color :: nat
  emissive :: nat
  emissiveIntensity :: real
  mesh_scale :: real
  ring_color :: nat
  ring_opacity :: real
  userData_agentId :: string
  userData_role :: string
  userData_agentData :: "agent option"

record tube =
  tube_ref :: nat
  tube_color :: nat
  tube_opacity :: real
  points :: "vec3 list"

record particle =
  particle_ref :: nat
  particle_color :: nat
  particle_opacity :: real

record edge =
  line :: tube
  particles :: particle
  timestamp :: int
  txTimestamp :: real
  edge_from :: string

text \<open>
  The refs and the state of the component: \<open>sceneRef\<close> (unset before the first effect has
  run), \<open>agentMeshesRef\<close>, \<open>transactionEdgesRef\<close>, the React state \<open>selectedAgent\<close>, the
  prop \<open>swarmData\<close> and the allocation counter.
\<close>

record state =
  scene :: "nat list option"
  agentMeshes :: "(string \<times> mesh) list"
  transactionEdges :: "edge list"
  selectedAgent :: "agent option"
  swarmData :: "swarm_data option"
  next_ref :: nat

text \<open>
  An exception that leaves an effect is a value: the error together with the state of the
  refs at the throw. Nothing is rolled back, so what the iterations before the throw have
  written is in that state.
\<close>

datatype error = TypeError

type_synonym outcome = "error \<times> state + state"

definition reached :: "outcome \<Rightarrow> state" where
  "reached r = (case r of Inl (e, s) \<Rightarrow> s | Inr s \<Rightarrow> s)"

subsection \<open>Property access on the registry object\<close>

text \<open>
  \<open>agentMeshesRef.current\<close> is a plain object literal, so a property read that finds no
  own property continues on \<open>Object.prototype\<close>. The names below are its properties; a
  read of one of them yields a function (or, for \<open>__proto__\<close>, the prototype object),
  which is truthy and has no \<open>userData\<close> and no \<open>position\<close>.
\<close>

definition Object_prototype_keys :: "string list" where
  "Object_prototype_keys =
     [''constructor'', ''__defineGetter__'', ''__defineSetter__'', ''hasOwnProperty'',
      ''__lookupGetter__'', ''__lookupSetter__'', ''isPrototypeOf'',
      ''propertyIsEnumerable'', ''toString'', ''valueOf'', ''__proto__'',
      ''toLocaleString'']"

datatype 'a lookup = Own 'a | Inherited | Undefined

definition get_prop :: "(string \<times> 'a) list \<Rightarrow> string \<Rightarrow> 'a lookup" where
  "get_prop obj k =
     (case map_of obj k of
        Some v \<Rightarrow> Own v
      | None \<Rightarrow> if k \<in> set Object_prototype_keys then Inherited else Undefined)"

text \<open>
  \<open>Object.values\<close> enumerates own properties: keys that are array indices first, in
  ascending numeric order, then the other keys in insertion order. The association list
  keeps insertion order.
\<close>

definition index_value :: "string \<Rightarrow> nat" where
  "index_value k = foldl (\<lambda>n c. 10 * n + (of_char c - 48)) 0 k"

definition is_array_index :: "string \<Rightarrow> bool" where
  "is_array_index k =
     (k \<noteq> [] \<and> list_all (\<lambda>c. c \<in> set ''0123456789'') k
      \<and> (k = ''0'' \<or> hd k \<noteq> CHR ''0'') \<and> index_value k < 2 ^ 32 - 1)"

definition Object_values :: "(string \<times> 'a) list \<Rightarrow> 'a list" where
  "Object_values obj =
     map snd (sort_key (\<lambda>p. index_value (fst p)) (filter (\<lambda>p. is_array_index (fst p)) obj)
              @ filter (\<lambda>p. \<not> is_array_index (fst p)) obj)"

section \<open>Scene initialisation\<close>

definition mounted :: state where
  "mounted = \<lparr>scene = None, agentMeshes = [], transactionEdges = [],
              selectedAgent = None, swarmData = None, next_ref = 0\<rparr>"

definition init_scene :: "state \<Rightarrow> state" where
  "init_scene s = s\<lparr>scene := Some []\<rparr>"

section \<open>The agent update effect\<close>

fun findIndex :: "('a \<Rightarrow> bool) \<Rightarrow> 'a list \<Rightarrow> int" where
  "findIndex P [] = - 1"
| "findIndex P (x # xs) =
     (if P x then 0 else (let r = findIndex P xs in if r < 0 then - 1 else r + 1))"

text \<open>
  The position of a new mesh. With an empty role group the quotient
  \<open>agentIndex / agentsInRole\<close> is \<open>-1 / 0\<close>, the angle is infinite and both
  \<open>Math.cos\<close> and \<open>Math.sin\<close> return \<open>NaN\<close>.
\<close>

definition ring_position :: "agent \<Rightarrow> agent list \<Rightarrow> agent list \<Rightarrow> vec3" where
  "ring_position a cs ss =
     (let radius = (if role a = ''coordinator'' then 15 else 25 :: real);
          agentsInRole = (if role a = ''coordinator'' then length cs else length ss);
          angleOffset = (if role a = ''coordinator'' then 0 else pi / 4);
          agentIndex = (if role a = ''coordinator''
                        then findIndex (\<lambda>x. agent_id x = agent_id a) cs
                        else findIndex (\<lambda>x. agent_id x = agent_id a) ss)
      in if agentsInRole = 0 then (NaN, Num 0, NaN)
         else (let angle = (real_of_int agentIndex / real agentsInRole) * pi * 2 + angleOffset
               in (Num (cos angle * radius), Num 0, Num (sin angle * radius))))"

definition ringColor :: "agent \<Rightarrow> nat" where
  "ringColor a =
     (if specialization a = Some ''hash_cracking'' then 10289407
      else if specialization a = Some ''sorting'' then 16755200
      else if specialization a = Some ''data_search'' then 43775
      else 65416)"

definition new_mesh :: "nat \<Rightarrow> agent \<Rightarrow> agent list \<Rightarrow> agent list \<Rightarrow> mesh" where
  "new_mesh r a cs ss =
     \<lparr>obj_ref = r,
      position = ring_position a cs ss,
      color = (if role a = ''coordinator'' then 65416 else 35071),
      emissive = (if role a = ''coordinator'' then 65416 else 35071),
      emissiveIntensity = 0.3,
      mesh_scale = 1,
      ring_color = (if role a = ''coordinator'' then 65416 else ringColor a),
      ring_opacity = 0,
      userData_agentId = agent_id a,
      userData_role = role a,
      userData_agentData = None\<rparr>"

definition isActive :: "agent \<Rightarrow> bool" where
  "isActive a =
     ((case active_tasks a of Some n \<Rightarrow> n > 0 | None \<Rightarrow> False) \<or> status a = Some ''working'')"

definition reputationScale :: "agent \<Rightarrow> real" where
  "reputationScale a =
     (case reputation a of
        Some r \<Rightarrow> if r \<noteq> 0 then max 0.8 (min 2.0 (r / 100)) else 1.0
      | None \<Rightarrow> 1.0)"

definition is_selected :: "agent option \<Rightarrow> string \<Rightarrow> bool" where
  "is_selected sel agentId = (case sel of Some sa \<Rightarrow> agent_id sa = agentId | None \<Rightarrow> False)"

text \<open>The part of the loop body after the creation branch: it mutates the mesh in place.\<close>

definition refresh_mesh :: "int \<Rightarrow> agent option \<Rightarrow> agent \<Rightarrow> mesh \<Rightarrow> mesh" where
  "refresh_mesh now sel a m =
     (let m1 = m\<lparr>userData_agentData := Some a\<rparr>;
          m2 = (if isActive a
                then m1\<lparr>mesh_scale := (1 + sin (real_of_int now * 0.003) * 0.15) * reputationScale a,
                        emissiveIntensity := 0.4 + sin (real_of_int now * 0.005) * 0.2,
                        ring_opacity := 0.3 + sin (real_of_int now * 0.005) * 0.2\<rparr>
                else m1\<lparr>mesh_scale := 1.0 * reputationScale a,
                        emissiveIntensity := 0.1,
                        ring_opacity := 0\<rparr>)
      in if is_selected sel (agent_id a)
         then m2\<lparr>emissiveIntensity := 0.8, ring_opacity := 0.8\<rparr>
         else m2)"

text \<open>
  One iteration of \<open>allAgents.forEach\<close>. A registry read that lands on an inherited
  property skips the creation branch and then fails on \<open>mesh.userData.agentData = agent\<close>.
\<close>

definition update_agent :: "int \<Rightarrow> agent list \<Rightarrow> agent list \<Rightarrow> agent \<Rightarrow> state \<Rightarrow> outcome" where
  "update_agent now cs ss a s =
     (case get_prop (agentMeshes s) (agent_id a) of
        Inherited \<Rightarrow> Inl (TypeError, s)
      | Own m \<Rightarrow>
          Inr (s\<lparr>agentMeshes :=
                   AList.update (agent_id a) (refresh_mesh now (selectedAgent s) a m) (agentMeshes s)\<rparr>)
      | Undefined \<Rightarrow>
          (let m = new_mesh (next_ref s) a cs ss
           in Inr (s\<lparr>scene := map_option (\<lambda>ch. ch @ [obj_ref m]) (scene s),
                     next_ref := Suc (next_ref s),
                     agentMeshes :=
                       AList.update (agent_id a) (refresh_mesh now (selectedAgent s) a m)
                         (agentMeshes s)\<rparr>)))"

text \<open>
  \<open>Array.prototype.forEach\<close> over an array that the callback does not change: the
  callback threads the state, and an exception ends the loop.
\<close>

fun forEach :: "('a \<Rightarrow> 's \<Rightarrow> 'e + 's) \<Rightarrow> 'a list \<Rightarrow> 's \<Rightarrow> 'e + 's" where
  "forEach f [] s = Inr s"
| "forEach f (x # xs) s = (case f x s of Inl e \<Rightarrow> Inl e | Inr s' \<Rightarrow> forEach f xs s')"

definition or_empty :: "'a list option \<Rightarrow> 'a list" where
  "or_empty l = (case l of Some xs \<Rightarrow> xs | None \<Rightarrow> [])"

definition update_agents :: "int \<Rightarrow> swarm_data option \<Rightarrow> state \<Rightarrow> outcome" where
  "update_agents now sd s =
     (if scene s = None then Inr s
      else case sd of
        None \<Rightarrow> Inr s
      | Some d \<Rightarrow>
          (case agents d of
             None \<Rightarrow> Inr s
           | Some ag \<Rightarrow>
               (let cs = or_empty (coordinators ag);
                    ss = or_empty (solvers ag);
                    allAgents = cs @ ss
                in forEach (update_agent now cs ss) allAgents s)))"

section \<open>The transaction edge effect\<close>

definition msg_color :: "string \<Rightarrow> nat" where
  "msg_color k =
     (if k = ''task_announcement'' then 65416
      else if k = ''task_bid'' then 35071
      else if k = ''solution_submission'' then 16711935
      else 16777215)"

definition alreadyExists :: "edge list \<Rightarrow> real \<Rightarrow> string \<Rightarrow> bool" where
  "alreadyExists es txTs sender =
     list_ex (\<lambda>e. txTimestamp e = txTs \<and> edge_from e = sender) es"

definition has_role :: "string \<Rightarrow> mesh \<Rightarrow> bool" where
  "has_role r m = (case userData_agentData m of Some d \<Rightarrow> role d = r | None \<Rightarrow> False)"

text \<open>
  The target meshes of a message. \<open>other\<close> is the test \<open>m !== fromMesh\<close>; when the sender
  read landed on an inherited property no mesh is that object.
\<close>

definition targetMeshes :: "string \<Rightarrow> (mesh \<Rightarrow> bool) \<Rightarrow> (string \<times> mesh) list \<Rightarrow> mesh list" where
  "targetMeshes kind other reg =
     (if kind = ''task_announcement''
      then filter (has_role ''solver'') (Object_values reg)
      else filter (\<lambda>m. has_role ''coordinator'' m \<and> other m) (Object_values reg))"

fun jadd :: "jsnum \<Rightarrow> jsnum \<Rightarrow> jsnum" where
  "jadd (Num a) (Num b) = Num (a + b)"
| "jadd _ _ = NaN"

fun jmul :: "jsnum \<Rightarrow> real \<Rightarrow> jsnum" where
  "jmul (Num a) c = Num (a * c)"
| "jmul NaN c = NaN"

definition midPoint :: "vec3 \<Rightarrow> vec3 \<Rightarrow> vec3" where
  "midPoint p q =
     (case (p, q) of ((px, py, pz), (qx, qy, qz)) \<Rightarrow>
        (jmul (jadd px qx) 0.5, jadd (jmul (jadd py qy) 0.5) (Num 5), jmul (jadd pz qz) 0.5))"

definition has_NaN :: "vec3 \<Rightarrow> bool" where
  "has_NaN p = (case p of (x, y, z) \<Rightarrow> x = NaN \<or> y = NaN \<or> z = NaN)"

text \<open>
  The body of \<open>targetMeshes.forEach\<close>: one tube, one marker, one tracked edge.

  \<open>new THREE.TubeGeometry(curve, 20, 0.1, 8, false)\<close> computes the Frenet frames of the
  curve. When a coordinate of a control point is \<open>NaN\<close> the arc lengths of the curve are
  \<open>NaN\<close>, \<open>getUtoTmapping\<close> returns \<open>NaN\<close>, \<open>getPoint(NaN)\<close> reads \<open>points[NaN]\<close>, which
  is \<open>undefined\<close>, and \<open>distanceToSquared(undefined)\<close> throws a \<open>TypeError\<close>. This happens
  before \<open>scene.add(tubeMesh)\<close> and before the edge is pushed.
\<close>

definition spawn_edge :: "int \<Rightarrow> nat \<Rightarrow> real \<Rightarrow> string \<Rightarrow> mesh \<Rightarrow> mesh \<Rightarrow> state \<Rightarrow> outcome" where
  "spawn_edge now col txTs sender fromMesh toMesh s =
     (let pts = [position fromMesh,
                 midPoint (position fromMesh) (position toMesh),
                 position toMesh]
      in if list_ex has_NaN pts then Inl (TypeError, s)
         else
           (let tubeMesh = \<lparr>tube_ref = next_ref s, tube_color = col, tube_opacity = 0.7,
                            points = pts\<rparr>;
                particle = \<lparr>particle_ref = Suc (next_ref s), particle_color = col,
                            particle_opacity = 0.8\<rparr>
            in Inr (s\<lparr>scene := map_option (\<lambda>ch. ch @ [tube_ref tubeMesh]) (scene s),
                      next_ref := Suc (Suc (next_ref s)),
                      transactionEdges := transactionEdges s @
                        [\<lparr>line = tubeMesh, particles = particle, timestamp = now,
                          txTimestamp = txTs, edge_from = sender\<rparr>]\<rparr>)))"

text \<open>
  One iteration of \<open>transactions.forEach\<close>. With an inherited sender property the first
  target fails on \<open>fromMesh.position.clone()\<close>; without targets nothing is evaluated. The
  target array is built before the inner loop starts, which does not change the registry.
\<close>

definition process_tx :: "int \<Rightarrow> tx \<Rightarrow> state \<Rightarrow> outcome" where
  "process_tx now t s =
     (let txTs = tx_timestamp t * 1000 in
      if alreadyExists (transactionEdges s) txTs (tx_from t) then Inr s
      else case get_prop (agentMeshes s) (tx_from t) of
        Undefined \<Rightarrow> Inr s
      | Inherited \<Rightarrow>
          (if targetMeshes (msg_type t) (\<lambda>m. True) (agentMeshes s) = [] then Inr s
           else Inl (TypeError, s))
      | Own fromMesh \<Rightarrow>
          forEach (spawn_edge now (msg_color (msg_type t)) txTs (tx_from t) fromMesh)
            (targetMeshes (msg_type t) (\<lambda>m. obj_ref m \<noteq> obj_ref fromMesh) (agentMeshes s))
            s)"

definition update_transaction_edges :: "int \<Rightarrow> swarm_data option \<Rightarrow> state \<Rightarrow> outcome" where
  "update_transaction_edges now sd s =
     (if scene s = None then Inr s
      else case sd of
        None \<Rightarrow> Inr s
      | Some d \<Rightarrow>
          (case transactions d of
             None \<Rightarrow> Inr s
           | Some txs \<Rightarrow> forEach (process_tx now) txs s))"

section \<open>The frame callback\<close>

definition maxAge :: int where
  "maxAge = 3000"

definition fade :: "int \<Rightarrow> edge \<Rightarrow> edge" where
  "fade now e =
     (let opacity = 1 - real_of_int (now - timestamp e) / real_of_int maxAge
      in e\<lparr>line := (line e)\<lparr>tube_opacity := opacity\<rparr>,
            particles := (particles e)\<lparr>particle_opacity := opacity * 0.8\<rparr>\<rparr>)"

text \<open>
  \<open>transactionEdgesRef.current.forEach\<close>: the length \<open>len\<close> is read once, the index \<open>k\<close>
  runs from \<open>0\<close> to \<open>len - 1\<close>, and an index that is no longer present when it is reached
  is passed over. The callback removes the element at its own index with \<open>splice\<close>.
\<close>

function forEach_edges :: "int \<Rightarrow> nat \<Rightarrow> nat \<Rightarrow> edge list \<times> nat list \<Rightarrow> edge list \<times> nat list" where
  "forEach_edges now len k (es, ch) =
     (if k < len then
        (if k < length es then
           (if now - timestamp (es ! k) > maxAge
            then forEach_edges now len (Suc k)
                   (take k es @ drop (Suc k) es, remove1 (tube_ref (line (es ! k))) ch)
            else forEach_edges now len (Suc k) (es[k := fade now (es ! k)], ch))
         else forEach_edges now len (Suc k) (es, ch))
      else (es, ch))"
  by pat_completeness auto
termination
  by (relation "measure (\<lambda>(now, len, k, p). len - k)") auto

definition animate :: "int \<Rightarrow> state \<Rightarrow> state" where
  "animate now s =
     (case scene s of
        None \<Rightarrow> s
      | Some ch \<Rightarrow>
          (let r = forEach_edges now (length (transactionEdges s)) 0 (transactionEdges s, ch)
           in s\<lparr>transactionEdges := fst r, scene := Some (snd r)\<rparr>))"

section \<open>Picking\<close>

text \<open>
  The raycaster is a parameter: \<open>intersectObjects\<close> maps the candidate meshes to the
  struck ones, nearest first.
\<close>

definition handleClick :: "(mesh list \<Rightarrow> mesh list) \<Rightarrow> state \<Rightarrow> state" where
  "handleClick intersectObjects s =
     (case intersectObjects (filter (\<lambda>m. True) (Object_values (agentMeshes s))) of
        [] \<Rightarrow> s\<lparr>selectedAgent := None\<rparr>
      | clickedMesh # _ \<Rightarrow>
          (case userData_agentData clickedMesh of
             Some agentData \<Rightarrow> s\<lparr>selectedAgent := Some agentData\<rparr>
           | None \<Rightarrow> s))"

section \<open>Sessions\<close>

text \<open>
  What can happen to a mounted component, one primitive at a time: a snapshot is delivered
  (the prop changes), the agent effect runs, the transaction effect runs, a frame is
  drawn, the canvas is clicked, the info panel is closed (by its close button, or by its
  terminate button once the request has been sent). React runs the two effects, in this
  order, after a delivery, and the agent effect after a change of the selection; the
  sessions below allow every order.
\<close>

datatype event =
    Deliver "swarm_data option"
  | AgentsEffect int
  | TransactionsEffect int
  | Frame int
  | Click "mesh list \<Rightarrow> mesh list"
  | ClosePanel

fun step :: "event \<Rightarrow> state \<Rightarrow> outcome" where
  "step (Deliver d) s = Inr (s\<lparr>swarmData := d\<rparr>)"
| "step (AgentsEffect now) s = update_agents now (swarmData s) s"
| "step (TransactionsEffect now) s = update_transaction_edges now (swarmData s) s"
| "step (Frame now) s = Inr (animate now s)"
| "step (Click f) s = Inr (handleClick f s)"
| "step ClosePanel s = Inr (s\<lparr>selectedAgent := None\<rparr>)"

definition run :: "event list \<Rightarrow> state \<Rightarrow> outcome" where
  "run evs s = forEach step evs s"

text \<open>A pointer ray that strikes exactly the mesh of one agent, and one that strikes nothing.\<close>

definition hit_agent :: "string \<Rightarrow> mesh list \<Rightarrow> mesh list" where
  "hit_agent k ms = filter (\<lambda>m. userData_agentId m = k) ms"

definition hit_nothing :: "mesh list \<Rightarrow> mesh list" where
  "hit_nothing ms = []"

section \<open>Auxiliary notions for the statements\<close>

subsection \<open>The sweep by recursion on the array\<close>

text \<open>
  The result of one \<open>forEach\<close> over the tracked edges, by recursion on the array: after
  a removal the next element moves into the index just visited and is passed over.
  \<open>removed_refs\<close> lists the tubes taken out of the scene.
\<close>

fun sweep :: "int \<Rightarrow> edge list \<Rightarrow> edge list" where
  "sweep now [] = []"
| "sweep now [e] = (if now - timestamp e > maxAge then [] else [fade now e])"
| "sweep now (e # e' # es) =
     (if now - timestamp e > maxAge then e' # sweep now es
      else fade now e # sweep now (e' # es))"

fun removed_refs :: "int \<Rightarrow> edge list \<Rightarrow> nat list" where
  "removed_refs now [] = []"
| "removed_refs now [e] = (if now - timestamp e > maxAge then [tube_ref (line e)] else [])"
| "removed_refs now (e # e' # es) =
     (if now - timestamp e > maxAge then tube_ref (line e) # removed_refs now es
      else removed_refs now (e' # es))"

text \<open>
  Which elements one \<open>forEach\<close> over the tracked edges hands to the callback: the first,
  and every element that is not directly behind one that the callback removes.
\<close>

fun visits :: "int \<Rightarrow> edge list \<Rightarrow> bool list" where
  "visits now [] = []"
| "visits now [e] = [True]"
| "visits now (e # e' # es) =
     (if now - timestamp e > maxAge then True # False # visits now es
      else True # visits now (e' # es))"

subsection \<open>Edges spawned for a list of targets\<close>

text \<open>The edges that \<open>targetMeshes.forEach\<close> appends, the first with reference \<open>r\<close>.\<close>

fun spawned :: "int \<Rightarrow> nat \<Rightarrow> real \<Rightarrow> string \<Rightarrow> mesh \<Rightarrow> mesh list \<Rightarrow> nat \<Rightarrow> edge list" where
  "spawned now col txTs sender fromMesh [] r = []"
| "spawned now col txTs sender fromMesh (toMesh # ts) r =
     \<lparr>line = \<lparr>tube_ref = r, tube_color = col, tube_opacity = 0.7,
               points = [position fromMesh, midPoint (position fromMesh) (position toMesh),
                         position toMesh]\<rparr>,
      particles = \<lparr>particle_ref = Suc r, particle_color = col, particle_opacity = 0.8\<rparr>,
      timestamp = now, txTimestamp = txTs, edge_from = sender\<rparr>
     # spawned now col txTs sender fromMesh ts (Suc (Suc r))"

subsection \<open>The registry\<close>

text \<open>The mesh stored under an agent's identifier by one loop iteration.\<close>

definition mesh_after :: "int \<Rightarrow> agent list \<Rightarrow> agent list \<Rightarrow> agent \<Rightarrow> state \<Rightarrow> mesh" where
  "mesh_after now cs ss a s =
     refresh_mesh now (selectedAgent s) a
       (case map_of (agentMeshes s) (agent_id a) of
          Some m \<Rightarrow> m
        | None \<Rightarrow> new_mesh (next_ref s) a cs ss)"

text \<open>
  Well-formed registries: one entry per key, no object under two keys, every object
  allocated, and every mesh labelled with its key and carrying a snapshot of that agent.
\<close>

definition mesh_ok :: "nat \<Rightarrow> string \<times> mesh \<Rightarrow> bool" where
  "mesh_ok n p =
     (obj_ref (snd p) < n \<and> userData_agentId (snd p) = fst p
      \<and> (case userData_agentData (snd p) of Some d \<Rightarrow> agent_id d = fst p | None \<Rightarrow> False))"

definition registry_wf :: "state \<Rightarrow> bool" where
  "registry_wf s =
     (distinct (map fst (agentMeshes s))
      \<and> distinct (map (\<lambda>p. obj_ref (snd p)) (agentMeshes s))
      \<and> list_all (mesh_ok (next_ref s)) (agentMeshes s))"



abbreviation kept :: "state \<Rightarrow> state \<Rightarrow> bool" where
  "kept s s' \<equiv>
     (\<forall>k m. map_of (agentMeshes s) k = Some m \<longrightarrow>
        (\<exists>m'. map_of (agentMeshes s') k = Some m' \<and> obj_ref m' = obj_ref m
              \<and> position m' = position m))"


text \<open>
  The agents of a snapshot in loop order, the test \<open>swarmData?.agents\<close> of the guard, and
  the outcome of the loop for one agent: its mesh carries the last entry of the snapshot
  with its identifier.
\<close>

definition roster_of :: "swarm_data option \<Rightarrow> agent list" where
  "roster_of sd =
     (case sd of
        None \<Rightarrow> []
      | Some d \<Rightarrow>
          (case agents d of
             None \<Rightarrow> []
           | Some ag \<Rightarrow> or_empty (coordinators ag) @ or_empty (solvers ag)))"

definition has_agents :: "swarm_data option \<Rightarrow> bool" where
  "has_agents sd = (case sd of None \<Rightarrow> False | Some d \<Rightarrow> agents d \<noteq> None)"

definition applied :: "state \<Rightarrow> agent list \<Rightarrow> agent \<Rightarrow> bool" where
  "applied s' as a =
     (case map_of (agentMeshes s') (agent_id a) of
        Some m \<Rightarrow> userData_agentData m = find (\<lambda>x. agent_id x = agent_id a) (rev as)
      | None \<Rightarrow> False)"

text \<open>The selection names a registered agent.\<close>

abbreviation selection_known :: "state \<Rightarrow> bool" where
  "selection_known s \<equiv>
     (\<forall>d. selectedAgent s = Some d \<longrightarrow> agent_id d \<in> fst ` set (agentMeshes s))"

subsection \<open>Observations on a state\<close>

definition tracked_refs :: "state \<Rightarrow> nat list" where
  "tracked_refs s = map (\<lambda>e. tube_ref (line e)) (transactionEdges s)"

definition tracked_keys :: "state \<Rightarrow> (string \<times> real) list" where
  "tracked_keys s = map (\<lambda>e. (edge_from e, txTimestamp e)) (transactionEdges s)"

definition tracked_opacity :: "state \<Rightarrow> (nat \<times> real) list" where
  "tracked_opacity s = map (\<lambda>e. (tube_ref (line e), tube_opacity (line e))) (transactionEdges s)"

definition tracked_age :: "int \<Rightarrow> state \<Rightarrow> (nat \<times> int) list" where
  "tracked_age now s = map (\<lambda>e. (tube_ref (line e), now - timestamp e)) (transactionEdges s)"

text \<open>The opacities stored for the tracked edges whose tube is the object \<open>r\<close>.\<close>

definition opacity_of :: "nat \<Rightarrow> state \<Rightarrow> real list" where
  "opacity_of r s =
     map (\<lambda>e. tube_opacity (line e)) (filter (\<lambda>e. tube_ref (line e) = r) (transactionEdges s))"

definition in_scene :: "nat \<Rightarrow> state \<Rightarrow> bool" where
  "in_scene r s = (case scene s of Some ch \<Rightarrow> r \<in> set ch | None \<Rightarrow> False)"

definition position_of :: "string \<Rightarrow> state \<Rightarrow> vec3 option" where
  "position_of k s = map_option position (map_of (agentMeshes s) k)"

definition selected_id :: "state \<Rightarrow> string option" where
  "selected_id s = map_option agent_id (selectedAgent s)"

text \<open>The override of the selected agent: glow 0.8 and ring opacity 0.8.\<close>

definition carries_override :: "string \<Rightarrow> state \<Rightarrow> bool" where
  "carries_override k s =
     (case map_of (agentMeshes s) k of
        Some m \<Rightarrow> emissiveIntensity m = 0.8 \<and> ring_opacity m = 0.8
      | None \<Rightarrow> False)"

subsection \<open>The scene\<close>

text \<open>
  Well-formed scenes: the scene lists the registered meshes and the tubes of the tracked
  edges, each once, and nothing else; no object is a mesh and a tube, or the tube of two
  edges; every tube is allocated. Before the scene is initialised nothing is registered
  and nothing is tracked.
\<close>

definition mesh_refs :: "state \<Rightarrow> nat list" where
  "mesh_refs s = map (\<lambda>p. obj_ref (snd p)) (agentMeshes s)"

definition scene_wf :: "state \<Rightarrow> bool" where
  "scene_wf s =
     (distinct (mesh_refs s @ tracked_refs s)
      \<and> list_all (\<lambda>r. r < next_ref s) (tracked_refs s)
      \<and> (case scene s of
            None \<Rightarrow> agentMeshes s = [] \<and> transactionEdges s = []
          | Some ch \<Rightarrow> distinct ch \<and> set ch = set (mesh_refs s @ tracked_refs s)))"




subsection \<open>Frames in the order of the clock\<close>

text \<open>
  The frames of a session happen at times that do not decrease, none before \<open>t\<close>; and the
  time of the last frame of the session (\<open>t\<close> when it has none).
\<close>

fun frames_from :: "int \<Rightarrow> event list \<Rightarrow> bool" where
  "frames_from t [] = True"
| "frames_from t (Frame now # evs) = (t \<le> now \<and> frames_from now evs)"
| "frames_from t (e # evs) = frames_from t evs"

fun last_frame :: "int \<Rightarrow> event list \<Rightarrow> int" where
  "last_frame t [] = t"
| "last_frame t (Frame now # evs) = last_frame now evs"
| "last_frame t (e # evs) = last_frame t evs"

text \<open>
  The tube \<open>r\<close> is allocated, and every tracked edge with this tube was created at \<open>ts\<close>
  and has an opacity between the value that a sweep at \<open>t\<close> would store and \<open>hi\<close>.
\<close>

definition fading :: "nat \<Rightarrow> int \<Rightarrow> int \<Rightarrow> real \<Rightarrow> state \<Rightarrow> bool" where
  "fading r ts t hi u =
     (r < next_ref u
      \<and> list_all (\<lambda>e. tube_ref (line e) = r \<longrightarrow>
                     timestamp e = ts
                   \<and> 1 - real_of_int (t - ts) / 3000 \<le> tube_opacity (line e)
                   \<and> tube_opacity (line e) \<le> hi) (transactionEdges u))"

subsection \<open>Concrete snapshots and sessions\<close>

definition plain_agent :: "string \<Rightarrow> string \<Rightarrow> agent" where
  "plain_agent k r = \<lparr>agent_id = k, role = r, status = None, active_tasks = None,
                       reputation = None, specialization = None\<rparr>"

definition announcement :: tx where
  "announcement = \<lparr>tx_from = ''c1'', msg_type = ''task_announcement'', tx_timestamp = 100\<rparr>"

definition bid :: tx where
  "bid = \<lparr>tx_from = ''s1'', msg_type = ''task_bid'', tx_timestamp = 101\<rparr>"



text \<open>One coordinator, no solver, no event; and the same coordinator behind a new one.\<close>

definition scenario1 :: swarm_data where
  "scenario1 =
     \<lparr>agents = Some \<lparr>coordinators = Some [plain_agent ''c1'' ''coordinator''], solvers = Some []\<rparr>,
      transactions = Some []\<rparr>"

definition reordered :: swarm_data where
  "reordered =
     \<lparr>agents = Some \<lparr>coordinators = Some [plain_agent ''c0'' ''coordinator'',
                                            plain_agent ''c1'' ''coordinator''],
                      solvers = Some []\<rparr>,
      transactions = Some []\<rparr>"

text \<open>
  One coordinator, two solvers and one announcement (time stamp 100 s); the same roster
  after solver \<open>s1\<close> has left.
\<close>

definition scenario3 :: swarm_data where
  "scenario3 =
     \<lparr>agents = Some \<lparr>coordinators = Some [plain_agent ''c1'' ''coordinator''],
                      solvers = Some [plain_agent ''s1'' ''solver'', plain_agent ''s2'' ''solver'']\<rparr>,
      transactions = Some [\<lparr>tx_from = ''c1'', msg_type = ''task_announcement'', tx_timestamp = 100\<rparr>]\<rparr>"

definition without_s1 :: swarm_data where
  "without_s1 =
     \<lparr>agents = Some \<lparr>coordinators = Some [plain_agent ''c1'' ''coordinator''],
                      solvers = Some [plain_agent ''s2'' ''solver'']\<rparr>,
      transactions = Some []\<rparr>"

text \<open>One coordinator and one solver; the transactions vary.\<close>

definition pair_snapshot :: "tx list \<Rightarrow> swarm_data" where
  "pair_snapshot txs =
     \<lparr>agents = Some \<lparr>coordinators = Some [plain_agent ''c1'' ''coordinator''],
                      solvers = Some [plain_agent ''s1'' ''solver'']\<rparr>,
      transactions = Some txs\<rparr>"

text \<open>A snapshot with an empty roster, and one without the \<open>agents\<close> field.\<close>

definition empty_roster :: swarm_data where
  "empty_roster = \<lparr>agents = Some \<lparr>coordinators = Some [], solvers = Some []\<rparr>,
                    transactions = Some []\<rparr>"

definition no_agents :: swarm_data where
  "no_agents = \<lparr>agents = None, transactions = None\<rparr>"

text \<open>
  A roster whose second entry is named after a property of \<open>Object.prototype\<close>; and a
  roster that files the solver \<open>s9\<close> under \<open>coordinators\<close>, with no solver group.
\<close>

definition poisoned :: swarm_data where
  "poisoned =
     \<lparr>agents = Some \<lparr>coordinators = Some [plain_agent ''c9'' ''coordinator'',
                                            plain_agent ''toString'' ''coordinator''],
                      solvers = Some []\<rparr>,
      transactions = Some []\<rparr>"


text \<open>The initialised component after a delivery, before any effect has run.\<close>

definition delivered :: "swarm_data \<Rightarrow> state" where
  "delivered d = (init_scene mounted)\<lparr>swarmData := Some d\<rparr>"

text \<open>
  States of the sessions used below: after the first pass over \<open>scenario1\<close>, after the
  first pass over \<open>scenario3\<close>, and after its announcement has been processed as well.
\<close>

definition first_sighting :: state where
  "first_sighting = projr (step (AgentsEffect 1000) (delivered scenario1))"

definition roster_state :: state where
  "roster_state =
     projr (run [Deliver (Some scenario3), AgentsEffect 1000] (init_scene mounted))"

definition broadcast_state :: state where
  "broadcast_state =
     projr (run [Deliver (Some scenario3), AgentsEffect 1000, TransactionsEffect 1000]
              (init_scene mounted))"


text \<open>
  A session in which the bid arrives 10 ms before the announcement's edge expires, with
  one frame in between.
\<close>

definition late_edge_session :: "event list" where
  "late_edge_session =
     [Deliver (Some (pair_snapshot [announcement])), AgentsEffect 1000, TransactionsEffect 1000,
      Frame 1016, Frame 3984,
      Deliver (Some (pair_snapshot [announcement, bid])), AgentsEffect 3990, TransactionsEffect 3990,
      Frame 4001, Frame 4017]"

section \<open>Evaluation of concrete sessions\<close>

lemmas model_defs =
  run_def init_scene_def mounted_def update_agents_def update_agent_def get_prop_def
  Object_prototype_keys_def new_mesh_def refresh_mesh_def ring_position_def ringColor_def
  isActive_def reputationScale_def is_selected_def or_empty_def
  update_transaction_edges_def process_tx_def alreadyExists_def targetMeshes_def
  has_role_def Object_values_def is_array_index_def index_value_def spawn_edge_def has_NaN_def
  msg_color_def midPoint_def handleClick_def hit_agent_def hit_nothing_def Let_def

lemmas sweep_defs = animate_def forEach_edges.simps maxAge_def fade_def

lemma broadcast_state_edges:
  "map (\<lambda>e. (tube_ref (line e), timestamp e)) (transactionEdges broadcast_state)
     = [(3, 1000), (5, 1000)]"
  by (simp add: broadcast_state_def scenario3_def plain_agent_def model_defs)

lemma broadcast_state_scene: "scene broadcast_state = Some [0, 1, 2, 3, 5]"
  by (simp add: broadcast_state_def scenario3_def plain_agent_def model_defs)

section \<open>The expiry sweep\<close>

declare forEach_edges.simps [simp del]

lemma forEach_edges_idle:
  "length es \<le> k \<Longrightarrow> forEach_edges now len k (es, ch) = (es, ch)"
proof (induction "len - k" arbitrary: k)
  case 0
  then show ?case by (simp add: forEach_edges.simps)
next
  case (Suc n)
  then have "forEach_edges now len (Suc k) (es, ch) = (es, ch)" by simp
  with Suc.prems show ?case by (subst forEach_edges.simps) simp
qed

lemma forEach_edges_sweep:
  "length pre = k \<Longrightarrow> k + length rest \<le> len \<Longrightarrow>
   forEach_edges now len k (pre @ rest, ch)
     = (pre @ sweep now rest, fold remove1 (removed_refs now rest) ch)"
proof (induction now rest arbitrary: pre k ch rule: sweep.induct)
  case (1 now)
  then show ?case by (simp add: forEach_edges_idle)
next
  case (2 now e)
  then show ?case
    by (subst forEach_edges.simps) (auto simp add: forEach_edges_idle nth_append list_update_append)
next
  case (3 now e e' es)
  show ?case
  proof (cases "now - timestamp e > maxAge")
    case True
    have "forEach_edges now len (Suc k) ((pre @ [e']) @ es, remove1 (tube_ref (line e)) ch)
          = ((pre @ [e']) @ sweep now es,
             fold remove1 (removed_refs now es) (remove1 (tube_ref (line e)) ch))"
      using 3 True by (intro "3.IH"(1)) auto
    with 3 True show ?thesis
      by (subst forEach_edges.simps) (simp add: nth_append)
  next
    case False
    have "forEach_edges now len (Suc k) ((pre @ [fade now e]) @ e' # es, ch)
          = ((pre @ [fade now e]) @ sweep now (e' # es),
             fold remove1 (removed_refs now (e' # es)) ch)"
      using 3 False by (intro "3.IH"(2)) auto
    with 3 False show ?thesis
      by (subst forEach_edges.simps) (simp add: nth_append list_update_append)
  qed
qed

lemma animate_sweep:
  "scene s = Some ch \<Longrightarrow>
   animate now s = s\<lparr>transactionEdges := sweep now (transactionEdges s),
                     scene := Some (fold remove1 (removed_refs now (transactionEdges s)) ch)\<rparr>"
  using forEach_edges_sweep [of "[]" 0 "transactionEdges s" "length (transactionEdges s)" now ch]
  by (simp add: animate_def)


lemma tube_ref_fade [simp]: "tube_ref (line (fade now e)) = tube_ref (line e)"
  by (simp add: fade_def)

lemma sweep_refs: "set (map (\<lambda>e. tube_ref (line e)) (sweep now es)) \<subseteq> set (map (\<lambda>e. tube_ref (line e)) es)"
  by (induction now es rule: sweep.induct) auto

lemma removed_refs_subset: "set (removed_refs now es) \<subseteq> set (map (\<lambda>e. tube_ref (line e)) es)"
  by (induction now es rule: removed_refs.induct) auto

lemma fold_remove1_keeps: "r \<in> set ch \<Longrightarrow> r \<notin> set rs \<Longrightarrow> r \<in> set (fold remove1 rs ch)"
  by (induction rs arbitrary: ch) auto

lemma fold_remove1_subset: "set (fold remove1 rs ch) \<subseteq> set ch"
proof (induction rs arbitrary: ch)
  case Nil
  show ?case by simp
next
  case (Cons r rs)
  have "set (fold remove1 rs (remove1 r ch)) \<subseteq> set (remove1 r ch)" by (rule Cons.IH)
  also have "\<dots> \<subseteq> set ch" by (rule set_remove1_subset)
  finally show ?case by simp
qed

lemma fold_remove1_distinct: "distinct ch \<Longrightarrow> distinct (fold remove1 rs ch)"
  by (induction rs arbitrary: ch) auto

lemma fold_remove1_gone: "distinct ch \<Longrightarrow> r \<in> set rs \<Longrightarrow> r \<notin> set (fold remove1 rs ch)"
proof (induction rs arbitrary: ch)
  case Nil
  then show ?case by simp
next
  case (Cons x rs)
  show ?case
  proof (cases "x = r")
    case True
    have "r \<notin> set (remove1 r ch)" using Cons.prems(1) by simp
    then show ?thesis using True fold_remove1_subset [of rs "remove1 r ch"] by auto
  next
    case False
    then show ?thesis using Cons by auto
  qed
qed

text \<open>
  C9. The sweep splices the tracked array while a forward index runs over it. When the
  first two tracked edges are both past the 3000 ms limit at one tick, that sweep removes
  the first from the array and the scene, and passes over the second: it stays first in
  the array, unchanged, and stays in the scene. The next sweep removes it.
\<close>

theorem C9_sweep_skips_successor:
  assumes sc: "scene s = Some ch" and dch: "distinct ch"
    and tr: "transactionEdges s = e1 # e2 # es"
    and x1: "now - timestamp e1 > maxAge" and x2: "now - timestamp e2 > maxAge"
    and in2: "tube_ref (line e2) \<in> set ch" and in1: "tube_ref (line e1) \<in> set ch"
    and fresh: "tube_ref (line e2) \<notin> set (map (\<lambda>e. tube_ref (line e)) (e1 # es))"
    and later: "now \<le> now'"
  shows "hd (transactionEdges (animate now s)) = e2
       \<and> length (transactionEdges (animate now s)) < length (transactionEdges s)
       \<and> in_scene (tube_ref (line e2)) (animate now s)
       \<and> \<not> in_scene (tube_ref (line e1)) (animate now s)
       \<and> tube_ref (line e2) \<notin> set (tracked_refs (animate now' (animate now s)))
       \<and> \<not> in_scene (tube_ref (line e2)) (animate now' (animate now s))"
proof -
  let ?s1 = "animate now s"
  let ?ch1 = "fold remove1 (removed_refs now (e1 # e2 # es)) ch"
  have a1: "?s1 = s\<lparr>transactionEdges := e2 # sweep now es, scene := Some ?ch1\<rparr>"
    using animate_sweep [OF sc, of now] tr x1 by simp
  have len: "length (sweep now es) \<le> length es" for es
    by (induction now es rule: sweep.induct) auto
  have rr: "removed_refs now (e1 # e2 # es) = tube_ref (line e1) # removed_refs now es"
    using x1 by simp
  have "tube_ref (line e2) \<notin> set (removed_refs now (e1 # e2 # es))"
    using fresh removed_refs_subset [of now es] unfolding rr by auto
  then have k2: "tube_ref (line e2) \<in> set ?ch1"
    using in2 by (rule fold_remove1_keeps [rotated])
  have g1: "tube_ref (line e1) \<notin> set ?ch1"
    using dch unfolding rr by (intro fold_remove1_gone) auto
  have d1: "distinct ?ch1" using dch by (rule fold_remove1_distinct)
  have sc1: "scene ?s1 = Some ?ch1" using a1 by simp
  have x2': "now' - timestamp e2 > maxAge" using x2 later by simp
  let ?es1 = "e2 # sweep now es"
  have a2: "animate now' ?s1 = ?s1\<lparr>transactionEdges := sweep now' ?es1,
              scene := Some (fold remove1 (removed_refs now' ?es1) ?ch1)\<rparr>"
    using animate_sweep [OF sc1, of now'] a1 by simp
  have sub: "set (map (\<lambda>e. tube_ref (line e)) (sweep now' (tl (sweep now es))))
               \<subseteq> set (map (\<lambda>e. tube_ref (line e)) es)"
    using sweep_refs [of now' "tl (sweep now es)"] sweep_refs [of now es]
    by (cases "sweep now es") auto
  have sw2: "sweep now' ?es1 = (case sweep now es of [] \<Rightarrow> [] | e' # r \<Rightarrow> e' # sweep now' r)"
    using x2' by (cases "sweep now es") auto
  have "set (map (\<lambda>e. tube_ref (line e)) (sweep now' ?es1)) \<subseteq> set (map (\<lambda>e. tube_ref (line e)) es)"
  proof (cases "sweep now es")
    case Nil
    then show ?thesis using sw2 by simp
  next
    case (Cons e' r)
    have "tube_ref (line e') \<in> set (map (\<lambda>e. tube_ref (line e)) es)"
      using sweep_refs [of now es] Cons by auto
    moreover have "set (map (\<lambda>e. tube_ref (line e)) (sweep now' r)) \<subseteq> set (map (\<lambda>e. tube_ref (line e)) es)"
      using sweep_refs [of now' r] sweep_refs [of now es] Cons by auto
    ultimately show ?thesis using sw2 Cons by auto
  qed
  then have nt: "tube_ref (line e2) \<notin> set (tracked_refs (animate now' ?s1))"
    using fresh a2 by (auto simp: tracked_refs_def)
  have "tube_ref (line e2) \<in> set (removed_refs now' ?es1)"
    using x2' by (cases "sweep now es") auto
  then have g2: "tube_ref (line e2) \<notin> set (fold remove1 (removed_refs now' ?es1) ?ch1)"
    using d1 by (intro fold_remove1_gone)
  show ?thesis
    using a1 a2 k2 g1 g2 nt tr len [of es] by (simp add: in_scene_def)
qed

theorem C9_sweep_skips_successor_witness:
  "hd (transactionEdges (animate 4001 broadcast_state)) = transactionEdges broadcast_state ! 1
   \<and> timestamp (transactionEdges broadcast_state ! 1) = 1000
   \<and> tube_ref (line (transactionEdges broadcast_state ! 1)) = 5
   \<and> in_scene 5 (animate 4001 broadcast_state)
   \<and> \<not> in_scene 3 (animate 4001 broadcast_state)
   \<and> 5 \<notin> set (tracked_refs (animate 4017 (animate 4001 broadcast_state)))
   \<and> \<not> in_scene 5 (animate 4017 (animate 4001 broadcast_state))"
proof -
  let ?es = "transactionEdges broadcast_state"
  have l: "length ?es = 2"
    using arg_cong [OF broadcast_state_edges, of length] by simp
  then have es: "?es = ?es ! 0 # ?es ! 1 # []"
    by (cases ?es; cases "tl ?es") auto
  have t0: "tube_ref (line (?es ! 0)) = 3 \<and> timestamp (?es ! 0) = 1000"
    using arg_cong [OF broadcast_state_edges, of "\<lambda>xs. xs ! 0"] l by simp
  have t1: "tube_ref (line (?es ! 1)) = 5 \<and> timestamp (?es ! 1) = 1000"
    using arg_cong [OF broadcast_state_edges, of "\<lambda>xs. xs ! 1"] l by simp
  show ?thesis
    using C9_sweep_skips_successor [OF broadcast_state_scene _ es, of 4001 4017] t0 t1
    by (simp add: maxAge_def)
qed

section \<open>Which edges a sweep visits\<close>

lemma length_visits [simp]: "length (visits now es) = length es"
  by (induction now es rule: visits.induct) auto

lemma visited_young:
  "i < length es \<Longrightarrow> visits now es ! i \<Longrightarrow> \<not> now - timestamp (es ! i) > maxAge \<Longrightarrow>
   fade now (es ! i) \<in> set (sweep now es)"
proof (induction now es arbitrary: i rule: sweep.induct)
  case (1 now)
  then show ?case by simp
next
  case (2 now e)
  then show ?case by simp
next
  case (3 now e e' es)
  show ?case
  proof (cases i)
    case 0
    then show ?thesis using "3.prems" by simp
  next
    case (Suc j)
    show ?thesis
    proof (cases "now - timestamp e > maxAge")
      case True
      then obtain k where j: "j = Suc k" using "3.prems" Suc by (cases j) auto
      have "fade now (es ! k) \<in> set (sweep now es)"
        using "3.IH"(1) [OF True, of k] "3.prems" True Suc j by simp
      then show ?thesis using True Suc j by simp
    next
      case False
      have "fade now ((e' # es) ! j) \<in> set (sweep now (e' # es))"
        using "3.IH"(2) [OF False, of j] "3.prems" False Suc by simp
      then show ?thesis using False Suc by simp
    qed
  qed
qed

lemma visited_old:
  "i < length es \<Longrightarrow> visits now es ! i \<Longrightarrow> now - timestamp (es ! i) > maxAge \<Longrightarrow>
   tube_ref (line (es ! i)) \<in> set (removed_refs now es)"
proof (induction now es arbitrary: i rule: sweep.induct)
  case (1 now)
  then show ?case by simp
next
  case (2 now e)
  then show ?case by simp
next
  case (3 now e e' es)
  show ?case
  proof (cases i)
    case 0
    then show ?thesis using "3.prems" by simp
  next
    case (Suc j)
    show ?thesis
    proof (cases "now - timestamp e > maxAge")
      case True
      then obtain k where j: "j = Suc k" using "3.prems" Suc by (cases j) auto
      have "tube_ref (line (es ! k)) \<in> set (removed_refs now es)"
        using "3.IH"(1) [OF True, of k] "3.prems" True Suc j by simp
      then show ?thesis using True Suc j by simp
    next
      case False
      have "tube_ref (line ((e' # es) ! j)) \<in> set (removed_refs now (e' # es))"
        using "3.IH"(2) [OF False, of j] "3.prems" False Suc by simp
      then show ?thesis using False Suc by simp
    qed
  qed
qed

lemma passed_over:
  "i < length es \<Longrightarrow> \<not> visits now es ! i \<Longrightarrow>
   0 < i \<and> tube_ref (line (es ! (i - 1))) \<in> set (removed_refs now es)"
proof (induction now es arbitrary: i rule: sweep.induct)
  case (1 now)
  then show ?case by simp
next
  case (2 now e)
  then show ?case by simp
next
  case (3 now e e' es)
  show ?case
  proof (cases i)
    case 0
    then show ?thesis using "3.prems" by (simp split: if_splits)
  next
    case (Suc j)
    show ?thesis
    proof (cases "now - timestamp e > maxAge")
      case True
      show ?thesis
      proof (cases j)
        case 0
        then show ?thesis using True Suc by simp
      next
        case (Suc k)
        have "0 < k \<and> tube_ref (line (es ! (k - 1))) \<in> set (removed_refs now es)"
          using "3.IH"(1) [OF True, of k] "3.prems" True \<open>i = Suc j\<close> Suc by simp
        then show ?thesis using True \<open>i = Suc j\<close> Suc by (cases k) auto
      qed
    next
      case False
      have "0 < j \<and> tube_ref (line ((e' # es) ! (j - 1))) \<in> set (removed_refs now (e' # es))"
        using "3.IH"(2) [OF False, of j] "3.prems" False Suc by simp
      then show ?thesis using False Suc by (cases j) auto
    qed
  qed
qed

lemma sweep_origin:
  "e' \<in> set (sweep now es) \<Longrightarrow>
   e' \<in> set es \<or> (\<exists>e\<in>set es. \<not> now - timestamp e > maxAge \<and> e' = fade now e)"
  by (induction now es rule: sweep.induct) (auto split: if_splits)

lemma sweep_refs_exact:
  "distinct (map (\<lambda>e. tube_ref (line e)) es) \<Longrightarrow>
   set (map (\<lambda>e. tube_ref (line e)) (sweep now es))
     = set (map (\<lambda>e. tube_ref (line e)) es) - set (removed_refs now es)
   \<and> distinct (map (\<lambda>e. tube_ref (line e)) (sweep now es))"
proof (induction now es rule: sweep.induct)
  case (1 now)
  then show ?case by simp
next
  case (2 now e)
  then show ?case by simp
next
  case (3 now e e' es)
  show ?case
  proof (cases "now - timestamp e > maxAge")
    case True
    have ih: "set (map (\<lambda>e. tube_ref (line e)) (sweep now es))
                = set (map (\<lambda>e. tube_ref (line e)) es) - set (removed_refs now es)"
      "distinct (map (\<lambda>e. tube_ref (line e)) (sweep now es))"
      using "3.IH"(1) [OF True] "3.prems" by simp_all
    have sub: "set (removed_refs now es) \<subseteq> set (map (\<lambda>e. tube_ref (line e)) es)"
      by (rule removed_refs_subset)
    show ?thesis
      using True ih sub "3.prems" by auto
  next
    case False
    have ih: "set (map (\<lambda>e. tube_ref (line e)) (sweep now (e' # es)))
                = set (map (\<lambda>e. tube_ref (line e)) (e' # es)) - set (removed_refs now (e' # es))"
      "distinct (map (\<lambda>e. tube_ref (line e)) (sweep now (e' # es)))"
      using "3.IH"(2) [OF False] "3.prems" by simp_all
    have sub: "set (removed_refs now (e' # es)) \<subseteq> set (map (\<lambda>e. tube_ref (line e)) (e' # es))"
      by (rule removed_refs_subset)
    have notin: "tube_ref (line e) \<notin> set (map (\<lambda>e. tube_ref (line e)) (e' # es))"
      using "3.prems" by auto
    then have n1: "tube_ref (line e) \<notin> set (removed_refs now (e' # es))" using sub by blast
    have n2: "tube_ref (line e) \<notin> set (map (\<lambda>e. tube_ref (line e)) (sweep now (e' # es)))"
      using notin ih(1) by blast
    have "sweep now (e # e' # es) = fade now e # sweep now (e' # es)"
      "removed_refs now (e # e' # es) = removed_refs now (e' # es)"
      using False by simp_all
    then show ?thesis
      using ih n1 n2 by (simp only: list.map tube_ref_fade list.set distinct.simps) auto
  qed
qed

lemma fold_remove1_set: "distinct ch \<Longrightarrow> set (fold remove1 rs ch) = set ch - set rs"
  using fold_remove1_keeps [of _ ch rs] fold_remove1_gone [of ch _ rs] fold_remove1_subset [of rs ch]
  by blast

section \<open>Loops that may fail\<close>

lemma forEach_induct_Inr:
  assumes "forEach f xs s = Inr s'" and "P s"
    and "\<And>x s s'. x \<in> set xs \<Longrightarrow> P s \<Longrightarrow> f x s = Inr s' \<Longrightarrow> P s'"
  shows "P s'"
  using assms
proof (induction xs arbitrary: s)
  case Nil
  then show ?case by simp
next
  case (Cons x xs)
  from Cons.prems(1) obtain s1 where s1: "f x s = Inr s1" and r: "forEach f xs s1 = Inr s'"
    by (auto split: sum.splits)
  have "P s1" using Cons.prems(2,3) s1 by auto
  then show ?case using Cons.IH [OF r] Cons.prems(3) by auto
qed

lemma forEach_append:
  "forEach f (xs @ ys) s = (case forEach f xs s of Inl e \<Rightarrow> Inl e | Inr s1 \<Rightarrow> forEach f ys s1)"
  by (induction xs arbitrary: s) (auto split: sum.splits)

lemma reached_simps [simp]: "reached (Inr s) = s" "reached (Inl (e, s)) = s"
  by (simp_all add: reached_def)

lemma forEach_reached_induct:
  assumes "P s"
    and "\<And>x t. x \<in> set xs \<Longrightarrow> P t \<Longrightarrow> P (reached (f x t))"
  shows "P (reached (forEach f xs s))"
  using assms
proof (induction xs arbitrary: s)
  case Nil
  then show ?case by simp
next
  case (Cons x xs)
  have step: "P (reached (f x s))" using Cons.prems by simp
  show ?case
  proof (cases "f x s")
    case (Inl et)
    then show ?thesis using step by simp
  next
    case (Inr s1)
    then have "P s1" using step by simp
    then have "P (reached (forEach f xs s1))"
      using Cons.IH [of s1] Cons.prems(2) by simp
    then show ?thesis using Inr by simp
  qed
qed

lemma forEach_thrown:
  "forEach f xs s = Inl et \<Longrightarrow>
   \<exists>pre x post t. xs = pre @ x # post \<and> forEach f pre s = Inr t \<and> f x t = Inl et"
proof (induction xs arbitrary: s)
  case Nil
  then show ?case by simp
next
  case (Cons x xs)
  show ?case
  proof (cases "f x s")
    case (Inl e)
    then have "x # xs = [] @ x # xs \<and> forEach f [] s = Inr s \<and> f x s = Inl et"
      using Cons.prems by simp
    then show ?thesis by blast
  next
    case (Inr s1)
    then have "forEach f xs s1 = Inl et" using Cons.prems by simp
    from Cons.IH [OF this] obtain pre y post t
      where "xs = pre @ y # post" "forEach f pre s1 = Inr t" "f y t = Inl et" by blast
    then have "x # xs = (x # pre) @ y # post \<and> forEach f (x # pre) s = Inr t \<and> f y t = Inl et"
      using Inr by simp
    then show ?thesis by blast
  qed
qed

section \<open>Spawned edges and enumeration order\<close>

lemma has_NaN_midPoint: "has_NaN (midPoint p q) = (has_NaN p \<or> has_NaN q)"
proof -
  obtain px py pz qx qy qz where p: "p = (px, py, pz)" and q: "q = (qx, qy, qz)"
    by (metis prod_cases3)
  show ?thesis
    unfolding p q
    by (cases px; cases py; cases pz; cases qx; cases qy; cases qz)
       (simp_all add: has_NaN_def midPoint_def)
qed

lemma spawn_edge_eq:
  "spawn_edge now col txTs sender fromMesh toMesh s =
     (if has_NaN (position fromMesh) \<or> has_NaN (position toMesh) then Inl (TypeError, s)
      else Inr (s\<lparr>scene := map_option (\<lambda>ch. ch @ [next_ref s]) (scene s),
                next_ref := Suc (Suc (next_ref s)),
                transactionEdges := transactionEdges s @
                  spawned now col txTs sender fromMesh [toMesh] (next_ref s)\<rparr>))"
  by (auto simp: spawn_edge_def has_NaN_midPoint Let_def)


lemma length_spawned [simp]: "length (spawned now col txTs sender fromMesh ts r) = length ts"
  by (induction ts arbitrary: r) auto


lemma mset_Object_values: "mset (Object_values obj) = mset (map snd obj)"
proof -
  let ?P = "\<lambda>p :: string \<times> 'a. is_array_index (fst p)"
  have "mset (Object_values obj)
          = image_mset snd (filter_mset ?P (mset obj) + filter_mset (\<lambda>p. \<not> ?P p) (mset obj))"
    by (simp add: Object_values_def del: image_mset_union add: image_mset_union [symmetric])
  also have "\<dots> = image_mset snd (mset obj)"
    by (simp only: multiset_partition [symmetric])
  finally show ?thesis by simp
qed

lemma set_Object_values: "set (Object_values obj) = snd ` set obj"
  using arg_cong [OF mset_Object_values [of obj], of set_mset] by simp



section \<open>What each operation leaves unchanged\<close>

lemma update_agent_Inr:
  assumes "update_agent now cs ss a s = Inr s'"
  shows "agentMeshes s' = AList.update (agent_id a) (mesh_after now cs ss a s) (agentMeshes s)"
    and "transactionEdges s' = transactionEdges s"
    and "selectedAgent s' = selectedAgent s"
    and "swarmData s' = swarmData s"
    and "next_ref s' = (if map_of (agentMeshes s) (agent_id a) = None then Suc (next_ref s) else next_ref s)"
    and "scene s' = (if map_of (agentMeshes s) (agent_id a) = None
                     then map_option (\<lambda>ch. ch @ [next_ref s]) (scene s) else scene s)"
  using assms
  by (auto simp: update_agent_def get_prop_def mesh_after_def new_mesh_def Let_def
           split: option.splits if_splits)

lemma update_agent_total:
  "agent_id a \<notin> set Object_prototype_keys \<Longrightarrow> \<exists>s'. update_agent now cs ss a s = Inr s'"
  by (simp add: update_agent_def get_prop_def Let_def split: option.splits)

lemma refresh_mesh_fixed [simp]:
  "obj_ref (refresh_mesh now sel a m) = obj_ref m"
  "position (refresh_mesh now sel a m) = position m"
  "userData_agentId (refresh_mesh now sel a m) = userData_agentId m"
  "userData_agentData (refresh_mesh now sel a m) = Some a"
  "color (refresh_mesh now sel a m) = color m"
  by (simp_all add: refresh_mesh_def Let_def)

lemma spawn_edge_reached:
  "agentMeshes (reached (spawn_edge now col txTs sender fromMesh toMesh s)) = agentMeshes s
   \<and> selectedAgent (reached (spawn_edge now col txTs sender fromMesh toMesh s)) = selectedAgent s
   \<and> swarmData (reached (spawn_edge now col txTs sender fromMesh toMesh s)) = swarmData s
   \<and> next_ref s \<le> next_ref (reached (spawn_edge now col txTs sender fromMesh toMesh s))"
  by (simp add: spawn_edge_eq)

lemma process_tx_reached:
  "agentMeshes (reached (process_tx now t s)) = agentMeshes s
   \<and> selectedAgent (reached (process_tx now t s)) = selectedAgent s
   \<and> swarmData (reached (process_tx now t s)) = swarmData s
   \<and> next_ref s \<le> next_ref (reached (process_tx now t s))"
proof -
  have loop: "agentMeshes (reached (forEach (spawn_edge now col txTs sender fromMesh) ts s)) = agentMeshes s
     \<and> selectedAgent (reached (forEach (spawn_edge now col txTs sender fromMesh) ts s)) = selectedAgent s
     \<and> swarmData (reached (forEach (spawn_edge now col txTs sender fromMesh) ts s)) = swarmData s
     \<and> next_ref s \<le> next_ref (reached (forEach (spawn_edge now col txTs sender fromMesh) ts s))"
    for col txTs sender fromMesh ts
  proof (rule forEach_reached_induct [where P = "\<lambda>u :: state. agentMeshes u = agentMeshes s
       \<and> selectedAgent u = selectedAgent s \<and> swarmData u = swarmData s \<and> next_ref s \<le> next_ref u"])
    show "agentMeshes s = agentMeshes s \<and> selectedAgent s = selectedAgent s
          \<and> swarmData s = swarmData s \<and> next_ref s \<le> next_ref s" by simp
  next
    fix x and u :: state
    assume "agentMeshes u = agentMeshes s \<and> selectedAgent u = selectedAgent s
            \<and> swarmData u = swarmData s \<and> next_ref s \<le> next_ref u"
    then show "agentMeshes (reached (spawn_edge now col txTs sender fromMesh x u)) = agentMeshes s
       \<and> selectedAgent (reached (spawn_edge now col txTs sender fromMesh x u)) = selectedAgent s
       \<and> swarmData (reached (spawn_edge now col txTs sender fromMesh x u)) = swarmData s
       \<and> next_ref s \<le> next_ref (reached (spawn_edge now col txTs sender fromMesh x u))"
      using spawn_edge_reached [of now col txTs sender fromMesh x u] by simp
  qed
  show ?thesis
    using loop by (simp add: process_tx_def Let_def split: lookup.splits)
qed

lemma process_tx_Inr:
  assumes "process_tx now t s = Inr s'"
  shows "agentMeshes s' = agentMeshes s"
    and "selectedAgent s' = selectedAgent s"
    and "swarmData s' = swarmData s"
    and "next_ref s \<le> next_ref s'"
  using process_tx_reached [of now t s] assms by simp_all

lemma animate_fields [simp]:
  "agentMeshes (animate now s) = agentMeshes s"
  "selectedAgent (animate now s) = selectedAgent s"
  "swarmData (animate now s) = swarmData s"
  "next_ref (animate now s) = next_ref s"
  by (simp_all add: animate_def Let_def split: option.splits)

lemma handleClick_fields [simp]:
  "agentMeshes (handleClick f s) = agentMeshes s"
  "transactionEdges (handleClick f s) = transactionEdges s"
  "swarmData (handleClick f s) = swarmData s"
  "next_ref (handleClick f s) = next_ref s"
  "scene (handleClick f s) = scene s"
  by (simp_all add: handleClick_def split: list.splits option.splits)

section \<open>The registry invariant\<close>

lemma kept_trans: "kept s s1 \<Longrightarrow> kept s1 s2 \<Longrightarrow> kept s s2"
  by (metis (no_types, lifting))


lemma update_fresh: "k \<notin> fst ` set al \<Longrightarrow> AList.update k v al = al @ [(k, v)]"
  by (induction al) auto

lemma update_existing_map:
  "map_of al k = Some v \<Longrightarrow> f v' = f v \<Longrightarrow>
   map (\<lambda>p. f (snd p)) (AList.update k v' al) = map (\<lambda>p. f (snd p)) al"
  by (induction al) auto

lemma update_existing_set:
  "map_of al k = Some v \<Longrightarrow> set (AList.update k v' al) \<subseteq> insert (k, v') (set al)"
  by (induction al) auto

lemma update_agent_kept:
  assumes "update_agent now cs ss a s = Inr s'"
  shows "kept s s'"
proof (intro allI impI)
  fix k m assume m: "map_of (agentMeshes s) k = Some m"
  have reg: "map_of (agentMeshes s') = (map_of (agentMeshes s))(agent_id a \<mapsto> mesh_after now cs ss a s)"
    using update_agent_Inr(1) [OF assms] by (simp add: update_conv')
  show "\<exists>m'. map_of (agentMeshes s') k = Some m' \<and> obj_ref m' = obj_ref m \<and> position m' = position m"
  proof (cases "k = agent_id a")
    case True
    then show ?thesis using m reg by (simp add: mesh_after_def)
  next
    case False
    then show ?thesis using m reg by simp
  qed
qed

lemma mesh_ok_mono: "mesh_ok n p \<Longrightarrow> n \<le> n' \<Longrightarrow> mesh_ok n' p"
  by (auto simp: mesh_ok_def)

lemma update_agent_wf:
  assumes u: "update_agent now cs ss a s = Inr s'" and wf: "registry_wf s"
  shows "registry_wf s'"
proof (cases "map_of (agentMeshes s) (agent_id a)")
  case None
  then have fresh: "agent_id a \<notin> fst ` set (agentMeshes s)"
    by (simp add: map_of_eq_None_iff)
  let ?m = "mesh_after now cs ss a s"
  have reg: "agentMeshes s' = agentMeshes s @ [(agent_id a, ?m)]"
    using update_agent_Inr(1) [OF u] update_fresh [OF fresh] by simp
  have nr: "next_ref s' = Suc (next_ref s)"
    using update_agent_Inr(5) [OF u] None by simp
  have r: "obj_ref ?m = next_ref s" "userData_agentId ?m = agent_id a"
    "userData_agentData ?m = Some a"
    using None by (simp_all add: mesh_after_def new_mesh_def)
  have old: "\<forall>p\<in>set (agentMeshes s). mesh_ok (next_ref s) p"
    using wf by (simp add: registry_wf_def list_all_iff)
  then have lt: "\<forall>p\<in>set (agentMeshes s). obj_ref (snd p) < next_ref s"
    by (simp add: mesh_ok_def)
  have "\<forall>p\<in>set (agentMeshes s). mesh_ok (Suc (next_ref s)) p"
    using old mesh_ok_mono by (metis le_SucI order_refl)
  moreover have "mesh_ok (Suc (next_ref s)) (agent_id a, ?m)"
    using r by (simp add: mesh_ok_def)
  moreover have "next_ref s \<notin> (\<lambda>p. obj_ref (snd p)) ` set (agentMeshes s)"
    using lt by auto
  ultimately show ?thesis
    using wf fresh reg nr r by (simp add: registry_wf_def list_all_iff)
next
  case (Some m)
  let ?m = "mesh_after now cs ss a s"
  have reg: "agentMeshes s' = AList.update (agent_id a) ?m (agentMeshes s)"
    using update_agent_Inr(1) [OF u] .
  have nr: "next_ref s' = next_ref s"
    using update_agent_Inr(5) [OF u] Some by simp
  have mem: "(agent_id a, m) \<in> set (agentMeshes s)"
    using Some by (rule map_of_SomeD)
  then have okm: "mesh_ok (next_ref s) (agent_id a, m)"
    using wf by (auto simp: registry_wf_def list_all_iff)
  have r: "obj_ref ?m = obj_ref m" "userData_agentId ?m = userData_agentId m"
    "userData_agentData ?m = Some a"
    using Some by (simp_all add: mesh_after_def)
  have "mesh_ok (next_ref s) (agent_id a, ?m)"
    using okm r by (simp add: mesh_ok_def)
  then have "\<forall>p\<in>set (agentMeshes s'). mesh_ok (next_ref s') p"
    using update_existing_set [OF Some, of ?m] wf reg nr
    by (auto simp: registry_wf_def list_all_iff)
  moreover have "map (\<lambda>p. obj_ref (snd p)) (agentMeshes s') = map (\<lambda>p. obj_ref (snd p)) (agentMeshes s)"
    unfolding reg using Some r(1) by (rule update_existing_map)
  moreover have "distinct (map fst (agentMeshes s'))"
    unfolding reg using wf by (simp add: registry_wf_def distinct_update)
  ultimately show ?thesis
    using wf by (simp add: registry_wf_def list_all_iff)
qed

lemma registry_wf_cong:
  "agentMeshes s' = agentMeshes s \<Longrightarrow> next_ref s \<le> next_ref s' \<Longrightarrow> registry_wf s \<Longrightarrow> registry_wf s'"
  using mesh_ok_mono by (auto simp: registry_wf_def list_all_iff)

lemma update_agents_wf_kept:
  assumes "update_agents now sd s = Inr s'" and "registry_wf s"
  shows "registry_wf s' \<and> kept s s'"
proof (cases "scene s = None \<or> sd = None \<or> agents (the sd) = None")
  case True
  then have "s' = s" using assms(1) by (auto simp: update_agents_def split: option.splits)
  then show ?thesis using assms(2) by simp
next
  case False
  then obtain d ag where sd: "sd = Some d" "agents d = Some ag" by auto
  let ?cs = "or_empty (coordinators ag)" and ?ss = "or_empty (solvers ag)"
  have f: "forEach (update_agent now ?cs ?ss) (?cs @ ?ss) s = Inr s'"
    using assms(1) False sd by (auto simp: update_agents_def Let_def)
  show ?thesis
  proof (rule forEach_induct_Inr [OF f, where P = "\<lambda>t. registry_wf t \<and> kept s t"])
    show "registry_wf s \<and> kept s s" using assms(2) by simp
  next
    fix x t t' assume "registry_wf t \<and> kept s t" and "update_agent now ?cs ?ss x t = Inr t'"
    then show "registry_wf t' \<and> kept s t'"
      using update_agent_wf update_agent_kept kept_trans [of s t t'] by blast
  qed
qed

lemma update_transaction_edges_Inr:
  assumes "update_transaction_edges now sd s = Inr s'"
  shows "agentMeshes s' = agentMeshes s \<and> selectedAgent s' = selectedAgent s
       \<and> swarmData s' = swarmData s \<and> next_ref s \<le> next_ref s'"
proof (cases "scene s = None \<or> sd = None \<or> transactions (the sd) = None")
  case True
  then have "s' = s"
    using assms by (auto simp: update_transaction_edges_def split: option.splits)
  then show ?thesis by simp
next
  case False
  then obtain d txs where sd: "sd = Some d" "transactions d = Some txs" by auto
  have f: "forEach (process_tx now) txs s = Inr s'"
    using assms False sd by (auto simp: update_transaction_edges_def)
  show ?thesis
  proof (rule forEach_induct_Inr [OF f, where P = "\<lambda>t. agentMeshes t = agentMeshes s
       \<and> selectedAgent t = selectedAgent s \<and> swarmData t = swarmData s \<and> next_ref s \<le> next_ref t"])
    show "agentMeshes s = agentMeshes s \<and> selectedAgent s = selectedAgent s
          \<and> swarmData s = swarmData s \<and> next_ref s \<le> next_ref s" by simp
  next
    fix x t t'
    assume "agentMeshes t = agentMeshes s \<and> selectedAgent t = selectedAgent s
              \<and> swarmData t = swarmData s \<and> next_ref s \<le> next_ref t"
      and "process_tx now x t = Inr t'"
    then show "agentMeshes t' = agentMeshes s \<and> selectedAgent t' = selectedAgent s
              \<and> swarmData t' = swarmData s \<and> next_ref s \<le> next_ref t'"
      using process_tx_Inr [of now x t t'] by simp
  qed
qed

lemma step_wf_kept:
  assumes "step e s = Inr s'" and "registry_wf s"
  shows "registry_wf s' \<and> kept s s'"
proof (cases e)
  case (Deliver d)
  then show ?thesis using assms by (auto simp: registry_wf_def)
next
  case (AgentsEffect now)
  then show ?thesis using assms update_agents_wf_kept by simp
next
  case (TransactionsEffect now)
  then have "agentMeshes s' = agentMeshes s \<and> next_ref s \<le> next_ref s'"
    using assms(1) update_transaction_edges_Inr by simp
  then show ?thesis using assms(2) registry_wf_cong by simp
next
  case (Frame now)
  then show ?thesis using assms registry_wf_cong [of "animate now s" s] by auto
next
  case (Click f)
  then show ?thesis using assms registry_wf_cong [of "handleClick f s" s] by auto
next
  case ClosePanel
  then show ?thesis using assms by (auto simp: registry_wf_def)
qed

lemma update_agents_forEach:
  assumes "scene s \<noteq> None" and "agents d = Some ag"
  shows "update_agents now (Some d) s =
           forEach (update_agent now (or_empty (coordinators ag)) (or_empty (solvers ag)))
             (or_empty (coordinators ag) @ or_empty (solvers ag)) s"
  using assms by (auto simp: update_agents_def Let_def)


lemma forEach_update_agent_total:
  "\<forall>a\<in>set as. agent_id a \<notin> set Object_prototype_keys \<Longrightarrow>
   \<exists>s'. forEach (update_agent now cs ss) as s = Inr s'"
proof (induction as arbitrary: s)
  case Nil
  then show ?case by simp
next
  case (Cons a as)
  then obtain s1 where "update_agent now cs ss a s = Inr s1"
    using update_agent_total [of a now cs ss s] by auto
  then show ?case using Cons by auto
qed



section \<open>Ring positions\<close>

lemma findIndex_bounds: "- 1 \<le> findIndex P xs \<and> findIndex P xs < int (length xs)"
  by (induction xs) (auto simp: Let_def)

lemma findIndex_found:
  "\<exists>x\<in>set xs. P x \<Longrightarrow>
   0 \<le> findIndex P xs \<and> P (xs ! nat (findIndex P xs))
   \<and> (\<forall>j<nat (findIndex P xs). \<not> P (xs ! j))"
proof (induction xs)
  case Nil
  then show ?case by simp
next
  case (Cons x xs)
  show ?case
  proof (cases "P x")
    case True
    then show ?thesis by simp
  next
    case False
    then have ex: "\<exists>x\<in>set xs. P x" using Cons.prems by auto
    note ih = Cons.IH [OF ex]
    have fi: "findIndex P (x # xs) = findIndex P xs + 1"
      using False ih by (simp add: Let_def)
    have n: "nat (findIndex P xs + 1) = Suc (nat (findIndex P xs))"
      using ih by (simp add: nat_add_distrib)
    show ?thesis
      unfolding fi n using ih False by (auto simp: nth_Cons split: nat.splits)
  qed
qed

lemma position_mesh_after_new:
  "map_of (agentMeshes s) (agent_id a) = None \<Longrightarrow>
   position (mesh_after now cs ss a s) = ring_position a cs ss"
  by (simp add: mesh_after_def new_mesh_def)

lemma forEach_update_agent_kept:
  assumes f: "forEach (update_agent now cs ss) as s = Inr s'"
  shows "kept s s'"
proof (rule forEach_induct_Inr [OF f, where P = "\<lambda>t. kept s t"])
  show "kept s s" by simp
next
  fix x t t' assume "kept s t" and "update_agent now cs ss x t = Inr t'"
  then show "kept s t'" using update_agent_kept kept_trans [of s t t'] by blast
qed

lemma update_agents_kept:
  assumes "update_agents now sd s = Inr s'"
  shows "kept s s'"
proof (cases "scene s = None \<or> sd = None \<or> agents (the sd) = None")
  case True
  then have "s' = s" using assms by (auto simp: update_agents_def split: option.splits)
  then show ?thesis by simp
next
  case False
  then obtain d ag where sd: "sd = Some d" "agents d = Some ag" and sc: "scene s \<noteq> None" by auto
  show ?thesis
    using assms forEach_update_agent_kept unfolding sd update_agents_forEach [OF sc sd(2)]
    by blast
qed

lemma step_kept:
  assumes "step e s = Inr s'"
  shows "kept s s'"
proof (cases e)
  case (Deliver d)
  then show ?thesis using assms by auto
next
  case (AgentsEffect now)
  then show ?thesis using assms update_agents_kept by simp
next
  case (TransactionsEffect now)
  then have "agentMeshes s' = agentMeshes s"
    using assms update_transaction_edges_Inr by simp
  then show ?thesis by simp
next
  case (Frame now)
  then show ?thesis using assms by auto
next
  case (Click f)
  then show ?thesis using assms by auto
next
  case ClosePanel
  then show ?thesis using assms by auto
qed

lemma pass_creates_at:
  assumes "forEach (update_agent now cs ss) as s = Inr s'"
    and "map_of (agentMeshes s) k = None"
    and "find (\<lambda>x. agent_id x = k) as = Some a"
  shows "\<exists>m. map_of (agentMeshes s') k = Some m \<and> position m = ring_position a cs ss"
  using assms
proof (induction as arbitrary: s)
  case Nil
  then show ?case by simp
next
  case (Cons x xs)
  from Cons.prems(1) obtain s1 where s1: "update_agent now cs ss x s = Inr s1"
    and r: "forEach (update_agent now cs ss) xs s1 = Inr s'"
    by (auto split: sum.splits)
  have reg: "map_of (agentMeshes s1) = (map_of (agentMeshes s))(agent_id x \<mapsto> mesh_after now cs ss x s)"
    using update_agent_Inr(1) [OF s1] by (simp add: update_conv')
  show ?case
  proof (cases "agent_id x = k")
    case True
    then have ax: "a = x" using Cons.prems(3) by simp
    have "map_of (agentMeshes s1) k = Some (mesh_after now cs ss x s)"
      using reg True by simp
    moreover have "position (mesh_after now cs ss x s) = ring_position a cs ss"
      using position_mesh_after_new [of s x now cs ss] Cons.prems(2) True ax by simp
    ultimately show ?thesis
      using forEach_update_agent_kept [OF r] by metis
  next
    case False
    then have "map_of (agentMeshes s1) k = None" using reg Cons.prems(2) by simp
    moreover have "find (\<lambda>x. agent_id x = k) xs = Some a" using Cons.prems(3) False by simp
    ultimately show ?thesis using Cons.IH [OF r] by simp
  qed
qed

lemma ring_position_listed:
  assumes "a \<in> set (if role a = ''coordinator'' then cs else ss)"
  shows "ring_position a cs ss =
     (let grp = (if role a = ''coordinator'' then cs else ss);
          i = findIndex (\<lambda>x. agent_id x = agent_id a) grp;
          angle = real_of_int i / real (length grp) * pi * 2
                    + (if role a = ''coordinator'' then 0 else pi / 4);
          radius = (if role a = ''coordinator'' then 15 else 25)
      in (Num (cos angle * radius), Num 0, Num (sin angle * radius)))"
proof -
  have "(if role a = ''coordinator'' then cs else ss) \<noteq> []" using assms by auto
  then show ?thesis by (auto simp: ring_position_def Let_def)
qed

section \<open>The last entry for an identifier decides\<close>

lemma refresh_mesh_override:
  "(emissiveIntensity (refresh_mesh now sel a m) = 0.8 \<and> ring_opacity (refresh_mesh now sel a m) = 0.8)
     = is_selected sel (agent_id a)"
proof -
  have two: "sin t \<noteq> 2" for t :: real
  proof
    assume e: "sin t = 2"
    have "sin t \<le> 1" by (rule sin_le_one)
    then show False unfolding e by simp
  qed
  have "0.4 + sin t * 0.2 \<noteq> (0.8 :: real)" for t :: real
    using two [of t] by simp
  then show ?thesis
    by (auto simp: refresh_mesh_def Let_def simp del: of_int_mult)
qed

lemma forEach_selectedAgent:
  assumes f: "forEach (update_agent now cs ss) as s = Inr s'"
  shows "selectedAgent s' = selectedAgent s"
  using forEach_induct_Inr [OF f, where P = "\<lambda>u. selectedAgent u = selectedAgent s"]
    update_agent_Inr(3) by simp

lemma pass_result:
  assumes "forEach (update_agent now cs ss) as s = Inr s'" and "a \<in> set as"
  shows "\<exists>m0 a'. find (\<lambda>x. agent_id x = agent_id a) (rev as) = Some a'
           \<and> map_of (agentMeshes s') (agent_id a) = Some (refresh_mesh now (selectedAgent s) a' m0)"
  using assms
proof (induction as arbitrary: s' rule: rev_induct)
  case Nil
  then show ?case by simp
next
  case (snoc x xs)
  from snoc.prems(1) obtain s1 where s1: "forEach (update_agent now cs ss) xs s = Inr s1"
    and u: "update_agent now cs ss x s1 = Inr s'"
    by (auto simp: forEach_append split: sum.splits)
  have sel: "selectedAgent s1 = selectedAgent s" using forEach_selectedAgent [OF s1] .
  have reg: "map_of (agentMeshes s') = (map_of (agentMeshes s1))(agent_id x \<mapsto> mesh_after now cs ss x s1)"
    using update_agent_Inr(1) [OF u] by (simp add: update_conv')
  show ?case
  proof (cases "agent_id x = agent_id a")
    case True
    then show ?thesis using reg sel by (auto simp: mesh_after_def)
  next
    case False
    then have "a \<in> set xs" using snoc.prems(2) by auto
    then show ?thesis using snoc.IH [OF s1] reg False by auto
  qed
qed

lemma forEach_update_agent_others:
  assumes f: "forEach (update_agent now cs ss) as s = Inr s'"
    and k: "k \<notin> agent_id ` set as"
  shows "map_of (agentMeshes s') k = map_of (agentMeshes s) k"
proof (rule forEach_induct_Inr [OF f, where P = "\<lambda>u. map_of (agentMeshes u) k = map_of (agentMeshes s) k"])
  show "map_of (agentMeshes s) k = map_of (agentMeshes s) k" by simp
next
  fix x u u'
  assume x: "x \<in> set as" and p: "map_of (agentMeshes u) k = map_of (agentMeshes s) k"
    and u: "update_agent now cs ss x u = Inr u'"
  have "agent_id x \<noteq> k" using x k by auto
  then show "map_of (agentMeshes u') k = map_of (agentMeshes s) k"
    using update_agent_Inr(1) [OF u] p by (simp add: update_conv')
qed

section \<open>The selection names a registered agent\<close>

lemma update_agents_selectedAgent:
  assumes "update_agents now sd s = Inr s'"
  shows "selectedAgent s' = selectedAgent s"
proof (cases "scene s = None \<or> sd = None \<or> agents (the sd) = None")
  case True
  then have "s' = s" using assms by (auto simp: update_agents_def split: option.splits)
  then show ?thesis by simp
next
  case False
  then obtain d ag where sd: "sd = Some d" "agents d = Some ag" and sc: "scene s \<noteq> None" by auto
  show ?thesis
    using assms forEach_selectedAgent unfolding sd update_agents_forEach [OF sc sd(2)]
    by blast
qed

lemma kept_keys: "kept s s' \<Longrightarrow> fst ` set (agentMeshes s) \<subseteq> fst ` set (agentMeshes s')"
proof
  fix k assume k: "kept s s'" and "k \<in> fst ` set (agentMeshes s)"
  then obtain m where "map_of (agentMeshes s) k = Some m"
    by (metis map_of_eq_None_iff not_None_eq)
  with k obtain m' where "map_of (agentMeshes s') k = Some m'" by blast
  then show "k \<in> fst ` set (agentMeshes s')"
    by (metis map_of_eq_None_iff option.distinct(1))
qed

lemma handleClick_hit:
  assumes wf: "registry_wf s"
    and ray: "set (f (Object_values (agentMeshes s))) \<subseteq> set (Object_values (agentMeshes s))"
    and hit: "f (Object_values (agentMeshes s)) = m # ms"
  shows "\<exists>d. userData_agentData m = Some d \<and> agent_id d = userData_agentId m
           \<and> map_of (agentMeshes s) (agent_id d) = Some m
           \<and> handleClick f s = s\<lparr>selectedAgent := Some d\<rparr>"
proof -
  have "m \<in> snd ` set (agentMeshes s)"
    using ray hit by (auto simp: set_Object_values)
  then obtain k where km: "(k, m) \<in> set (agentMeshes s)" by auto
  then have ok: "mesh_ok (next_ref s) (k, m)"
    using wf by (auto simp: registry_wf_def list_all_iff)
  then obtain d where d: "userData_agentData m = Some d" "agent_id d = k" "userData_agentId m = k"
    by (auto simp: mesh_ok_def split: option.splits)
  have "map_of (agentMeshes s) k = Some m"
    using km wf by (simp add: registry_wf_def)
  then show ?thesis using d hit by (simp add: handleClick_def)
qed

lemma step_selection:
  assumes st: "step e s = Inr s'" and wf: "registry_wf s" and sk: "selection_known s"
    and ray: "\<forall>g. e = Click g \<longrightarrow> (\<forall>ms. set (g ms) \<subseteq> set ms)"
  shows "selection_known s'"
proof (cases e)
  case (Deliver d)
  then show ?thesis using st sk by auto
next
  case (AgentsEffect now)
  then have u: "update_agents now (swarmData s) s = Inr s'" using st by simp
  show ?thesis
    using update_agents_selectedAgent [OF u] kept_keys [OF update_agents_kept [OF u]] sk by auto
next
  case (TransactionsEffect now)
  then show ?thesis using st sk update_transaction_edges_Inr [of now "swarmData s" s s'] by simp
next
  case (Frame now)
  then show ?thesis using st sk by auto
next
  case (Click g)
  then have s': "s' = handleClick g s" using st by simp
  have r: "set (g (Object_values (agentMeshes s))) \<subseteq> set (Object_values (agentMeshes s))"
    using ray Click by simp
  show ?thesis
  proof (cases "g (Object_values (agentMeshes s))")
    case Nil
    then show ?thesis unfolding s' by (simp add: handleClick_def)
  next
    case (Cons m ms)
    obtain d where "map_of (agentMeshes s) (agent_id d) = Some m"
      "handleClick g s = s\<lparr>selectedAgent := Some d\<rparr>"
      using handleClick_hit [of s g m ms, OF wf r Cons] by blast
    then show ?thesis unfolding s'
      by (metis (no_types, lifting) handleClick_fields(1) map_of_eq_None_iff option.distinct(1)
          option.inject state.select_convs(4) state.surjective state.update_convs(4))
  qed
next
  case ClosePanel
  then show ?thesis using st by auto
qed

lemma run_wf_selection:
  assumes reach: "run evs s0 = Inr s"
    and wf0: "registry_wf s0" and sk0: "selection_known s0"
    and rays: "\<forall>g. Click g \<in> set evs \<longrightarrow> (\<forall>ms. set (g ms) \<subseteq> set ms)"
  shows "registry_wf s \<and> selection_known s"
proof -
  have f: "forEach step evs s0 = Inr s" using reach by (simp add: run_def)
  show ?thesis
  proof (rule forEach_induct_Inr [OF f, where P = "\<lambda>t. registry_wf t \<and> selection_known t"])
    show "registry_wf s0 \<and> selection_known s0" using wf0 sk0 by simp
  next
    fix e t t'
    assume e: "e \<in> set evs" and p: "registry_wf t \<and> selection_known t"
      and st: "step e t = Inr t'"
    have "\<forall>g. e = Click g \<longrightarrow> (\<forall>ms. set (g ms) \<subseteq> set ms)" using e rays by blast
    then have "selection_known t'" using step_selection [OF st] p by blast
    moreover have "registry_wf t'" using step_wf_kept [OF st] p by blast
    ultimately show "registry_wf t' \<and> selection_known t'" by simp
  qed
qed

lemma run_append:
  "run (evs @ evs') s = (case run evs s of Inl e \<Rightarrow> Inl e | Inr s1 \<Rightarrow> run evs' s1)"
  unfolding run_def by (rule forEach_append)

section \<open>Passes that complete\<close>

lemma update_agents_total:
  assumes "list_all (\<lambda>a. agent_id a \<notin> set Object_prototype_keys) (roster_of sd)"
  shows "\<exists>s'. update_agents now sd s = Inr s'"
proof (cases "scene s = None \<or> sd = None \<or> agents (the sd) = None")
  case True
  then show ?thesis by (auto simp: update_agents_def split: option.splits)
next
  case False
  then obtain d ag where sd: "sd = Some d" and ag: "agents d = Some ag" and sc: "scene s \<noteq> None"
    by auto
  have "\<forall>a\<in>set (or_empty (coordinators ag) @ or_empty (solvers ag)).
          agent_id a \<notin> set Object_prototype_keys"
    using assms sd ag by (simp add: roster_of_def list_all_iff)
  then show ?thesis
    unfolding sd update_agents_forEach [OF sc ag] by (rule forEach_update_agent_total)
qed

section \<open>The scene invariant, whatever the outcome\<close>

lemma update_agent_thrown:
  "update_agent now cs ss a s = Inl et \<Longrightarrow> et = (TypeError, s)"
  by (auto simp: update_agent_def Let_def split: lookup.splits)

lemma spawn_edge_thrown:
  "spawn_edge now col txTs sender fromMesh toMesh s = Inl et \<Longrightarrow> et = (TypeError, s)"
  by (simp add: spawn_edge_eq split: if_splits)

lemma reached_cases:
  assumes "\<And>s'. r = Inr s' \<Longrightarrow> P s'" and "\<And>e s'. r = Inl (e, s') \<Longrightarrow> P s'"
  shows "P (reached r)"
proof (cases r)
  case (Inl et)
  then have "r = Inl (fst et, snd et)" by simp
  then have "P (snd et)" by (rule assms(2))
  then show ?thesis using Inl by (cases et) simp
next
  case (Inr s')
  then show ?thesis using assms(1) by simp
qed

lemma scene_bound:
  assumes wf: "registry_wf s" and sw: "scene_wf s" and sc: "scene s = Some ch"
  shows "\<forall>r\<in>set ch. r < next_ref s"
proof -
  have "\<forall>p\<in>set (agentMeshes s). obj_ref (snd p) < next_ref s"
    using wf by (simp add: registry_wf_def list_all_iff mesh_ok_def)
  then have "\<forall>r\<in>set (mesh_refs s). r < next_ref s" by (auto simp: mesh_refs_def)
  moreover have "\<forall>r\<in>set (tracked_refs s). r < next_ref s"
    using sw by (simp add: scene_wf_def list_all_iff)
  moreover have "set ch = set (mesh_refs s) \<union> set (tracked_refs s)"
    using sw sc by (simp add: scene_wf_def)
  ultimately show ?thesis by auto
qed

lemma update_agent_scene_wf:
  assumes u: "update_agent now cs ss a s = Inr s'"
    and wf: "registry_wf s" and sw: "scene_wf s" and sc: "scene s \<noteq> None"
  shows "scene_wf s' \<and> scene s' \<noteq> None"
proof -
  obtain ch where ch: "scene s = Some ch" using sc by auto
  have tr: "tracked_refs s' = tracked_refs s"
    using update_agent_Inr(2) [OF u] by (simp add: tracked_refs_def)
  have dch: "distinct ch" and sch: "set ch = set (mesh_refs s) \<union> set (tracked_refs s)"
    and dd: "distinct (mesh_refs s @ tracked_refs s)"
    and tb: "\<forall>r\<in>set (tracked_refs s). r < next_ref s"
    using sw ch by (simp_all add: scene_wf_def list_all_iff)
  have bound: "\<forall>r\<in>set ch. r < next_ref s" using scene_bound [OF wf sw ch] .
  show ?thesis
  proof (cases "map_of (agentMeshes s) (agent_id a)")
    case None
    then have fresh: "agent_id a \<notin> fst ` set (agentMeshes s)"
      by (simp add: map_of_eq_None_iff)
    have reg: "agentMeshes s' = agentMeshes s @ [(agent_id a, mesh_after now cs ss a s)]"
      using update_agent_Inr(1) [OF u] update_fresh [OF fresh] by simp
    have r: "obj_ref (mesh_after now cs ss a s) = next_ref s"
      using None by (simp add: mesh_after_def new_mesh_def)
    have mr: "mesh_refs s' = mesh_refs s @ [next_ref s]"
      using reg r by (simp add: mesh_refs_def)
    have nr: "next_ref s' = Suc (next_ref s)" using update_agent_Inr(5) [OF u] None by simp
    have sc': "scene s' = Some (ch @ [next_ref s])"
      using update_agent_Inr(6) [OF u] None ch by simp
    have new: "next_ref s \<notin> set ch" using bound by auto
    then have new': "next_ref s \<notin> set (mesh_refs s)" "next_ref s \<notin> set (tracked_refs s)"
      using sch by auto
    have "distinct (mesh_refs s' @ tracked_refs s')"
      using dd new' unfolding mr tr by auto
    moreover have "list_all (\<lambda>r. r < next_ref s') (tracked_refs s')"
      using tb unfolding tr nr by (auto simp: list_all_iff)
    moreover have "distinct (ch @ [next_ref s])" using dch new by simp
    moreover have "set (ch @ [next_ref s]) = set (mesh_refs s' @ tracked_refs s')"
      using sch unfolding mr tr by auto
    ultimately show ?thesis using sc' by (simp add: scene_wf_def)
  next
    case (Some m)
    have "obj_ref (mesh_after now cs ss a s) = obj_ref m"
      using Some by (simp add: mesh_after_def)
    then have mr: "mesh_refs s' = mesh_refs s"
      unfolding mesh_refs_def update_agent_Inr(1) [OF u]
      using Some by (intro update_existing_map)
    have nr: "next_ref s' = next_ref s" using update_agent_Inr(5) [OF u] Some by simp
    have sc': "scene s' = Some ch" using update_agent_Inr(6) [OF u] Some ch by simp
    show ?thesis using sw ch unfolding scene_wf_def mr tr nr sc' by simp
  qed
qed

lemma spawn_edge_inv:
  assumes u: "spawn_edge now col txTs sender fromMesh toMesh s = Inr s'"
    and wf: "registry_wf s" and sw: "scene_wf s" and sc: "scene s \<noteq> None"
  shows "registry_wf s' \<and> scene_wf s' \<and> scene s' \<noteq> None \<and> agentMeshes s' = agentMeshes s"
proof -
  obtain ch where ch: "scene s = Some ch" using sc by auto
  have s': "s' = s\<lparr>scene := Some (ch @ [next_ref s]),
                   next_ref := Suc (Suc (next_ref s)),
                   transactionEdges := transactionEdges s @
                     spawned now col txTs sender fromMesh [toMesh] (next_ref s)\<rparr>"
    using u ch by (simp add: spawn_edge_eq split: if_splits)
  have reg: "agentMeshes s' = agentMeshes s" and nr: "next_ref s' = Suc (Suc (next_ref s))"
    and sc': "scene s' = Some (ch @ [next_ref s])"
    and tr: "tracked_refs s' = tracked_refs s @ [next_ref s]"
    and mr: "mesh_refs s' = mesh_refs s"
    unfolding s' by (simp_all add: tracked_refs_def mesh_refs_def)
  have dch: "distinct ch" and sch: "set ch = set (mesh_refs s) \<union> set (tracked_refs s)"
    and dd: "distinct (mesh_refs s @ tracked_refs s)"
    and tb: "\<forall>r\<in>set (tracked_refs s). r < next_ref s"
    using sw ch by (simp_all add: scene_wf_def list_all_iff)
  have bound: "\<forall>r\<in>set ch. r < next_ref s" using scene_bound [OF wf sw ch] .
  have new: "next_ref s \<notin> set ch" using bound by auto
  then have new': "next_ref s \<notin> set (mesh_refs s)" "next_ref s \<notin> set (tracked_refs s)"
    using sch by auto
  have "registry_wf s'"
    using registry_wf_cong [of s' s] reg nr wf by simp
  moreover have "distinct (mesh_refs s' @ tracked_refs s')"
    using dd new' unfolding mr tr by auto
  moreover have "list_all (\<lambda>r. r < next_ref s') (tracked_refs s')"
    using tb unfolding tr nr by (auto simp: list_all_iff)
  moreover have "distinct (ch @ [next_ref s])" using dch new by simp
  moreover have "set (ch @ [next_ref s]) = set (mesh_refs s' @ tracked_refs s')"
    using sch unfolding mr tr by auto
  ultimately show ?thesis using sc' reg by (simp add: scene_wf_def)
qed

lemma scene_wf_cong:
  "agentMeshes s' = agentMeshes s \<Longrightarrow> transactionEdges s' = transactionEdges s \<Longrightarrow>
   scene s' = scene s \<Longrightarrow> next_ref s' = next_ref s \<Longrightarrow> scene_wf s \<Longrightarrow> scene_wf s'"
  by (simp add: scene_wf_def mesh_refs_def tracked_refs_def split: option.splits)

lemma update_agents_inv:
  assumes wf: "registry_wf s" and sw: "scene_wf s"
  shows "registry_wf (reached (update_agents now sd s))
       \<and> scene_wf (reached (update_agents now sd s))
       \<and> kept s (reached (update_agents now sd s))"
proof (cases "scene s = None \<or> sd = None \<or> agents (the sd) = None")
  case True
  then have "update_agents now sd s = Inr s"
    by (auto simp: update_agents_def split: option.splits)
  then show ?thesis using wf sw by simp
next
  case False
  then obtain d ag where sd: "sd = Some d" "agents d = Some ag" and sc: "scene s \<noteq> None" by auto
  let ?cs = "or_empty (coordinators ag)" and ?ss = "or_empty (solvers ag)"
  let ?P = "\<lambda>t :: state. (registry_wf t \<and> scene_wf t \<and> scene t \<noteq> None) \<and> kept s t"
  have "?P (reached (forEach (update_agent now ?cs ?ss) (?cs @ ?ss) s))"
  proof (rule forEach_reached_induct [where P = ?P])
    show "?P s" using wf sw sc by simp
  next
    fix x and t :: state
    assume p: "?P t"
    show "?P (reached (update_agent now ?cs ?ss x t))"
    proof (rule reached_cases)
      fix t' assume u: "update_agent now ?cs ?ss x t = Inr t'"
      have "registry_wf t'" using update_agent_wf [OF u] p by simp
      moreover have "scene_wf t' \<and> scene t' \<noteq> None"
        using update_agent_scene_wf [OF u] p by simp
      moreover have "kept s t'"
        using update_agent_kept [OF u] p kept_trans [of s t t'] by blast
      ultimately show "?P t'" by simp
    next
      fix e t' assume "update_agent now ?cs ?ss x t = Inl (e, t')"
      then have "t' = t" using update_agent_thrown by blast
      then show "?P t'" using p by simp
    qed
  qed
  then show ?thesis
    unfolding sd update_agents_forEach [OF sc sd(2)] by simp
qed

lemma process_tx_inv:
  assumes wf: "registry_wf s" and sw: "scene_wf s" and sc: "scene s \<noteq> None"
  shows "registry_wf (reached (process_tx now t s))
       \<and> scene_wf (reached (process_tx now t s))
       \<and> scene (reached (process_tx now t s)) \<noteq> None"
proof -
  let ?P = "\<lambda>u :: state. registry_wf u \<and> scene_wf u \<and> scene u \<noteq> None"
  have loop: "?P (reached (forEach (spawn_edge now col txTs sender fromMesh) ts s))"
    for col txTs sender fromMesh ts
  proof (rule forEach_reached_induct [where P = ?P])
    show "?P s" using wf sw sc by simp
  next
    fix x and u :: state
    assume p: "?P u"
    show "?P (reached (spawn_edge now col txTs sender fromMesh x u))"
    proof (rule reached_cases)
      fix u' assume "spawn_edge now col txTs sender fromMesh x u = Inr u'"
      then show "?P u'" using spawn_edge_inv [of now col txTs sender fromMesh x u u'] p by simp
    next
      fix e u' assume "spawn_edge now col txTs sender fromMesh x u = Inl (e, u')"
      then have "u' = u" using spawn_edge_thrown by blast
      then show "?P u'" using p by simp
    qed
  qed
  show ?thesis
    using loop wf sw sc by (simp add: process_tx_def Let_def split: lookup.splits)
qed

lemma update_transaction_edges_reached:
  "agentMeshes (reached (update_transaction_edges now sd s)) = agentMeshes s
   \<and> selectedAgent (reached (update_transaction_edges now sd s)) = selectedAgent s
   \<and> swarmData (reached (update_transaction_edges now sd s)) = swarmData s
   \<and> next_ref s \<le> next_ref (reached (update_transaction_edges now sd s))"
proof (cases "scene s = None \<or> sd = None \<or> transactions (the sd) = None")
  case True
  then have "update_transaction_edges now sd s = Inr s"
    by (auto simp: update_transaction_edges_def split: option.splits)
  then show ?thesis by simp
next
  case False
  then obtain d txs where sd: "sd = Some d" "transactions d = Some txs" by auto
  let ?P = "\<lambda>u :: state. agentMeshes u = agentMeshes s \<and> selectedAgent u = selectedAgent s
       \<and> swarmData u = swarmData s \<and> next_ref s \<le> next_ref u"
  have "?P (reached (forEach (process_tx now) txs s))"
  proof (rule forEach_reached_induct [where P = ?P])
    show "?P s" by simp
  next
    fix x and u :: state
    assume "?P u"
    then show "?P (reached (process_tx now x u))"
      using process_tx_reached [of now x u] by simp
  qed
  then show ?thesis
    using False sd by (auto simp: update_transaction_edges_def)
qed

lemma update_transaction_edges_inv:
  assumes wf: "registry_wf s" and sw: "scene_wf s"
  shows "registry_wf (reached (update_transaction_edges now sd s))
       \<and> scene_wf (reached (update_transaction_edges now sd s))"
proof (cases "scene s = None \<or> sd = None \<or> transactions (the sd) = None")
  case True
  then have "update_transaction_edges now sd s = Inr s"
    by (auto simp: update_transaction_edges_def split: option.splits)
  then show ?thesis using wf sw by simp
next
  case False
  then obtain d txs where sd: "sd = Some d" "transactions d = Some txs" and sc: "scene s \<noteq> None"
    by auto
  let ?P = "\<lambda>u :: state. registry_wf u \<and> scene_wf u \<and> scene u \<noteq> None"
  have "?P (reached (forEach (process_tx now) txs s))"
  proof (rule forEach_reached_induct [where P = ?P])
    show "?P s" using wf sw sc by simp
  next
    fix x and u :: state
    assume "?P u"
    then show "?P (reached (process_tx now x u))"
      using process_tx_inv [of u now x] by simp
  qed
  then show ?thesis
    using False sd by (auto simp: update_transaction_edges_def)
qed

lemma animate_scene_wf:
  assumes wf: "registry_wf s" and sw: "scene_wf s"
  shows "scene_wf (animate now s)"
proof (cases "scene s")
  case None
  then show ?thesis using sw by (simp add: animate_def)
next
  case (Some ch)
  let ?es = "transactionEdges s"
  let ?refs = "map (\<lambda>e. tube_ref (line e))"
  have a: "animate now s = s\<lparr>transactionEdges := sweep now ?es,
                              scene := Some (fold remove1 (removed_refs now ?es) ch)\<rparr>"
    using animate_sweep [OF Some] .
  have dch: "distinct ch" and sch: "set ch = set (mesh_refs s) \<union> set (?refs ?es)"
    and dm: "distinct (mesh_refs s)" and dt: "distinct (?refs ?es)"
    and disj: "set (mesh_refs s) \<inter> set (?refs ?es) = {}"
    and tb: "\<forall>r\<in>set (?refs ?es). r < next_ref s"
    using sw Some by (simp_all add: scene_wf_def list_all_iff tracked_refs_def)
  have ex: "set (?refs (sweep now ?es)) = set (?refs ?es) - set (removed_refs now ?es)"
    and ds: "distinct (?refs (sweep now ?es))"
    using sweep_refs_exact [OF dt, of now] by simp_all
  have sub: "set (removed_refs now ?es) \<subseteq> set (?refs ?es)" by (rule removed_refs_subset)
  have mr: "mesh_refs (animate now s) = mesh_refs s" by (simp add: mesh_refs_def)
  have tr: "tracked_refs (animate now s) = ?refs (sweep now ?es)"
    unfolding a by (simp add: tracked_refs_def)
  have sc': "scene (animate now s) = Some (fold remove1 (removed_refs now ?es) ch)"
    unfolding a by simp
  have "distinct (mesh_refs s @ ?refs (sweep now ?es))"
    using dm ds disj ex by auto
  moreover have "list_all (\<lambda>r. r < next_ref s) (?refs (sweep now ?es))"
    using tb ex unfolding list_all_iff by blast
  moreover have "distinct (fold remove1 (removed_refs now ?es) ch)"
    using dch by (rule fold_remove1_distinct)
  moreover have "set (fold remove1 (removed_refs now ?es) ch)
                   = set (mesh_refs s @ ?refs (sweep now ?es))"
    unfolding fold_remove1_set [OF dch] using sch ex sub disj by auto
  ultimately show ?thesis
    unfolding scene_wf_def mr tr sc' by simp
qed

lemma step_inv:
  assumes wf: "registry_wf s" and sw: "scene_wf s"
  shows "registry_wf (reached (step e s)) \<and> scene_wf (reached (step e s))
       \<and> kept s (reached (step e s))"
proof (cases e)
  case (Deliver d)
  then show ?thesis
    using wf sw scene_wf_cong [of "s\<lparr>swarmData := d\<rparr>" s] by (simp add: registry_wf_def)
next
  case (AgentsEffect now)
  then show ?thesis using update_agents_inv [OF wf sw] by simp
next
  case (TransactionsEffect now)
  then show ?thesis
    using update_transaction_edges_inv [OF wf sw, of now "swarmData s"]
      update_transaction_edges_reached [of now "swarmData s" s] by simp
next
  case (Frame now)
  then show ?thesis
    using animate_scene_wf [OF wf sw, of now] registry_wf_cong [of "animate now s" s] wf by simp
next
  case (Click f)
  then show ?thesis
    using scene_wf_cong [of "handleClick f s" s] registry_wf_cong [of "handleClick f s" s] wf sw
    by simp
next
  case ClosePanel
  then show ?thesis
    using wf sw scene_wf_cong [of "s\<lparr>selectedAgent := None\<rparr>" s] by (simp add: registry_wf_def)
qed

lemma run_inv:
  assumes wf: "registry_wf s" and sw: "scene_wf s"
  shows "registry_wf (reached (run evs s)) \<and> scene_wf (reached (run evs s))
       \<and> kept s (reached (run evs s))"
proof -
  let ?P = "\<lambda>t :: state. (registry_wf t \<and> scene_wf t) \<and> kept s t"
  have "?P (reached (forEach step evs s))"
  proof (rule forEach_reached_induct [where P = ?P])
    show "?P s" using wf sw by simp
  next
    fix x and t :: state
    assume p: "?P t"
    have "registry_wf (reached (step x t)) \<and> scene_wf (reached (step x t))
          \<and> kept t (reached (step x t))"
      using step_inv [of t x] p by simp
    then show "?P (reached (step x t))"
      using p kept_trans [of s t "reached (step x t)"] by blast
  qed
  then show ?thesis by (simp add: run_def)
qed

text \<open>Every state that a session reaches from the initialised component is well formed.\<close>

lemma reachable_inv:
  "registry_wf (reached (run evs (init_scene mounted)))
   \<and> scene_wf (reached (run evs (init_scene mounted)))"
proof -
  have "registry_wf (init_scene mounted)" "scene_wf (init_scene mounted)"
    by (simp_all add: registry_wf_def scene_wf_def mesh_refs_def tracked_refs_def
          init_scene_def mounted_def)
  then show ?thesis using run_inv [of "init_scene mounted" evs] by simp
qed

lemma run_reached_kept: "kept s (reached (run evs s))"
proof -
  let ?P = "\<lambda>t :: state. kept s t"
  have "?P (reached (forEach step evs s))"
  proof (rule forEach_reached_induct [where P = ?P])
    show "?P s" by simp
  next
    fix x and t :: state
    assume p: "?P t"
    have "kept t (reached (step x t))"
    proof (rule reached_cases)
      fix t' assume "step x t = Inr t'"
      then show "kept t t'" by (rule step_kept)
    next
      fix e t' assume th: "step x t = Inl (e, t')"
      show "kept t t'"
      proof (cases x)
        case (AgentsEffect now)
        then have th': "update_agents now (swarmData t) t = Inl (e, t')" using th by simp
        then have sc: "scene t \<noteq> None" and "swarmData t \<noteq> None"
          by (auto simp: update_agents_def split: if_splits option.splits)
        then obtain d where d: "swarmData t = Some d" by auto
        then obtain ag where ag: "agents d = Some ag"
          using th' sc by (auto simp: update_agents_def split: if_splits option.splits)
        from th' obtain pre y post u
          where u: "forEach (update_agent now (or_empty (coordinators ag)) (or_empty (solvers ag))) pre t = Inr u"
            and y: "update_agent now (or_empty (coordinators ag)) (or_empty (solvers ag)) y u = Inl (e, t')"
          unfolding d update_agents_forEach [OF sc ag] using forEach_thrown by metis
        have "t' = u" using update_agent_thrown [OF y] by simp
        then show ?thesis using forEach_update_agent_kept [OF u] by simp
      next
        case (TransactionsEffect now)
        then have "agentMeshes t' = agentMeshes t"
          using update_transaction_edges_reached [of now "swarmData t" t] th by simp
        then show ?thesis by simp
      qed (use th in auto)
    qed
    then show "?P (reached (step x t))"
      using p kept_trans [of s t "reached (step x t)"] by blast
  qed
  then show ?thesis by (simp add: run_def)
qed

section \<open>What a pass allocates\<close>




section \<open>Finite positions\<close>




section \<open>Opacity along a session\<close>

lemma frames_from_le: "frames_from t evs \<Longrightarrow> t \<le> last_frame t evs"
proof (induction t evs rule: frames_from.induct)
  case (1 t)
  then show ?case by simp
next
  case (2 t now evs)
  then show ?case by simp
qed simp_all

lemma frames_from_append:
  "frames_from t (evs1 @ evs2) \<Longrightarrow>
   frames_from t evs1 \<and> frames_from (last_frame t evs1) evs2"
  by (induction t evs1 rule: frames_from.induct) simp_all

lemma fading_later: "fading r ts t hi u \<Longrightarrow> t \<le> t' \<Longrightarrow> fading r ts t' hi u"
proof -
  assume f: "fading r ts t hi u" and le: "t \<le> t'"
  have "1 - real_of_int (t' - ts) / 3000 \<le> 1 - real_of_int (t - ts) / 3000"
    using le by (simp add: divide_right_mono)
  then have low: "1 - real_of_int (t' - ts) / 3000 \<le> x"
    if "1 - real_of_int (t - ts) / 3000 \<le> x" for x
    using that by linarith
  show ?thesis
    using f low unfolding fading_def list_all_iff by blast
qed

lemma fading_cong:
  "transactionEdges u' = transactionEdges u \<Longrightarrow> next_ref u \<le> next_ref u' \<Longrightarrow>
   fading r ts t hi u \<Longrightarrow> fading r ts t hi u'"
  by (auto simp: fading_def)

lemma fading_animate:
  assumes f: "fading r ts t hi u" and le: "t \<le> now"
  shows "fading r ts now hi (animate now u)"
proof (cases "scene u")
  case None
  then have "animate now u = u" by (simp add: animate_def)
  then show ?thesis using fading_later [OF f le] by simp
next
  case (Some ch)
  have old: "\<forall>e\<in>set (transactionEdges u). tube_ref (line e) = r \<longrightarrow>
               timestamp e = ts \<and> 1 - real_of_int (now - ts) / 3000 \<le> tube_opacity (line e)
               \<and> tube_opacity (line e) \<le> hi"
    and low: "\<forall>e\<in>set (transactionEdges u). tube_ref (line e) = r \<longrightarrow>
               timestamp e = ts \<and> 1 - real_of_int (t - ts) / 3000 \<le> tube_opacity (line e)
               \<and> tube_opacity (line e) \<le> hi"
    using fading_later [OF f le] f by (simp_all add: fading_def list_all_iff)
  have m: "1 - real_of_int (now - ts) / 3000 \<le> 1 - real_of_int (t - ts) / 3000"
    using le by (simp add: divide_right_mono)
  have "timestamp e' = ts \<and> 1 - real_of_int (now - ts) / 3000 \<le> tube_opacity (line e')
        \<and> tube_opacity (line e') \<le> hi"
    if mem: "e' \<in> set (sweep now (transactionEdges u))" and r: "tube_ref (line e') = r" for e'
  proof -
    from sweep_origin [OF mem] show ?thesis
    proof
      assume "e' \<in> set (transactionEdges u)"
      then show ?thesis using old r by blast
    next
      assume "\<exists>e\<in>set (transactionEdges u). \<not> now - timestamp e > maxAge \<and> e' = fade now e"
      then obtain e where e: "e \<in> set (transactionEdges u)" "e' = fade now e" by blast
      then have "tube_ref (line e) = r" using r by simp
      then have l: "timestamp e = ts" "1 - real_of_int (t - ts) / 3000 \<le> tube_opacity (line e)"
        "tube_opacity (line e) \<le> hi"
        using low e(1) by blast+
      have e': "timestamp e' = ts" "tube_opacity (line e') = 1 - real_of_int (now - ts) / 3000"
        using e(2) l(1) by (simp_all add: fade_def maxAge_def)
      have "tube_opacity (line e') \<le> hi" unfolding e'(2) using m l(2,3) by linarith
      then show ?thesis using e' by simp
    qed
  qed
  then show ?thesis
    using f unfolding animate_sweep [OF Some] fading_def list_all_iff by simp
qed

lemma fading_spawn_edge:
  assumes f: "fading r ts t hi u"
  shows "fading r ts t hi (reached (spawn_edge now col txTs sender fromMesh toMesh u))"
  using f by (auto simp: spawn_edge_eq fading_def)

lemma fading_process_tx:
  assumes f: "fading r ts t hi u"
  shows "fading r ts t hi (reached (process_tx now x u))"
proof -
  have loop: "fading r ts t hi (reached (forEach (spawn_edge now col txTs sender fromMesh) tgs u))"
    for col txTs sender fromMesh tgs
    by (rule forEach_reached_induct [where P = "fading r ts t hi"])
       (simp_all add: f fading_spawn_edge)
  show ?thesis
    using loop f by (simp add: process_tx_def Let_def split: lookup.splits)
qed

lemma fading_update_transaction_edges:
  assumes f: "fading r ts t hi u"
  shows "fading r ts t hi (reached (update_transaction_edges now sd u))"
proof (cases "scene u = None \<or> sd = None \<or> transactions (the sd) = None")
  case True
  then have "update_transaction_edges now sd u = Inr u"
    by (auto simp: update_transaction_edges_def split: option.splits)
  then show ?thesis using f by simp
next
  case False
  then obtain d txs where sd: "sd = Some d" "transactions d = Some txs" by auto
  have "fading r ts t hi (reached (forEach (process_tx now) txs u))"
    by (rule forEach_reached_induct [where P = "fading r ts t hi"])
       (simp_all add: f fading_process_tx)
  then show ?thesis
    using False sd by (auto simp: update_transaction_edges_def)
qed

lemma update_agents_reached_edges:
  "transactionEdges (reached (update_agents now sd s)) = transactionEdges s
   \<and> next_ref s \<le> next_ref (reached (update_agents now sd s))"
proof (cases "scene s = None \<or> sd = None \<or> agents (the sd) = None")
  case True
  then have "update_agents now sd s = Inr s"
    by (auto simp: update_agents_def split: option.splits)
  then show ?thesis by simp
next
  case False
  then obtain d ag where sd: "sd = Some d" "agents d = Some ag" and sc: "scene s \<noteq> None" by auto
  let ?cs = "or_empty (coordinators ag)" and ?ss = "or_empty (solvers ag)"
  let ?P = "\<lambda>u :: state. transactionEdges u = transactionEdges s \<and> next_ref s \<le> next_ref u"
  have "?P (reached (forEach (update_agent now ?cs ?ss) (?cs @ ?ss) s))"
  proof (rule forEach_reached_induct [where P = ?P])
    show "?P s" by simp
  next
    fix x and u :: state
    assume p: "?P u"
    show "?P (reached (update_agent now ?cs ?ss x u))"
    proof (rule reached_cases)
      fix u' assume "update_agent now ?cs ?ss x u = Inr u'"
      then show "?P u'" using update_agent_Inr(2,5) [of now ?cs ?ss x u u'] p by simp
    next
      fix e u' assume "update_agent now ?cs ?ss x u = Inl (e, u')"
      then have "u' = u" using update_agent_thrown by blast
      then show "?P u'" using p by simp
    qed
  qed
  then show ?thesis
    unfolding sd update_agents_forEach [OF sc sd(2)] by simp
qed

lemma fading_step:
  assumes f: "fading r ts t hi u" and fr: "frames_from t [e]"
  shows "fading r ts (last_frame t [e]) hi (reached (step e u))"
proof (cases e)
  case (Deliver d)
  then show ?thesis using f fading_cong [of "u\<lparr>swarmData := d\<rparr>" u] by simp
next
  case (AgentsEffect now)
  then show ?thesis
    using f update_agents_reached_edges [of now "swarmData u" u]
      fading_cong [of "reached (update_agents now (swarmData u) u)" u] by simp
next
  case (TransactionsEffect now)
  then show ?thesis using fading_update_transaction_edges [OF f] by simp
next
  case (Frame now)
  then show ?thesis using fading_animate [OF f, of now] fr by simp
next
  case (Click g)
  then show ?thesis using f fading_cong [of "handleClick g u" u] by simp
next
  case ClosePanel
  then show ?thesis using f fading_cong [of "u\<lparr>selectedAgent := None\<rparr>" u] by simp
qed

lemma frames_from_Cons:
  "frames_from t (e # evs) \<Longrightarrow> frames_from t [e] \<and> frames_from (last_frame t [e]) evs"
  using frames_from_append [of t "[e]" evs] by simp

lemma last_frame_Cons: "last_frame t (e # evs) = last_frame (last_frame t [e]) evs"
  by (cases e) simp_all

lemma fading_run:
  "fading r ts t hi u \<Longrightarrow> frames_from t evs \<Longrightarrow>
   fading r ts (last_frame t evs) hi (reached (run evs u))"
proof (induction evs arbitrary: t u)
  case Nil
  then show ?case by (simp add: run_def)
next
  case (Cons e evs)
  have fr: "frames_from t [e]" "frames_from (last_frame t [e]) evs"
    using frames_from_Cons [OF Cons.prems(2)] by simp_all
  have st: "fading r ts (last_frame t [e]) hi (reached (step e u))"
    using fading_step [OF Cons.prems(1) fr(1)] .
  show ?case
  proof (cases "step e u")
    case (Inl et)
    then have "reached (run (e # evs) u) = reached (step e u)" by (simp add: run_def)
    then show ?thesis
      using fading_later [OF st frames_from_le [OF fr(2)]]
      by (simp add: last_frame_Cons [of t e evs])
  next
    case (Inr u1)
    then have "reached (run (e # evs) u) = reached (run evs u1)" by (simp add: run_def)
    moreover have "fading r ts (last_frame t [e]) hi u1" using st Inr by simp
    ultimately show ?thesis
      using Cons.IH [OF _ fr(2)] by (simp add: last_frame_Cons [of t e evs])
  qed
qed

lemma filter_unique:
  "distinct (map f xs) \<Longrightarrow> x \<in> set xs \<Longrightarrow> filter (\<lambda>y. f y = f x) xs = [x]"
proof (induction xs)
  case Nil
  then show ?case by simp
next
  case (Cons a xs)
  show ?case
  proof (cases "x = a")
    case True
    have "f a \<notin> f ` set xs" using Cons.prems(1) by simp
    then have "\<forall>y\<in>set xs. f y \<noteq> f a" by (metis imageI)
    then have "filter (\<lambda>y. f y = f a) xs = []"
      by (simp add: filter_empty_conv)
    then show ?thesis using True by simp
  next
    case False
    then have "x \<in> set xs" using Cons.prems(2) by simp
    moreover have "f a \<noteq> f x"
    proof -
      have "f x \<in> f ` set xs" using \<open>x \<in> set xs\<close> by (rule imageI)
      moreover have "f a \<notin> f ` set xs" using Cons.prems(1) by simp
      ultimately show ?thesis by metis
    qed
    ultimately show ?thesis using Cons by simp
  qed
qed

lemma opacity_of_unique:
  assumes d: "distinct (tracked_refs u)"
    and a: "o1 \<in> set (opacity_of r u)" and b: "o2 \<in> set (opacity_of r u)"
  shows "o1 = o2"
proof -
  let ?f = "\<lambda>e. tube_ref (line e)"
  obtain e1 where e1: "e1 \<in> set (transactionEdges u)" "?f e1 = r" "tube_opacity (line e1) = o1"
    using a by (auto simp: opacity_of_def)
  obtain e2 where e2: "e2 \<in> set (transactionEdges u)" "?f e2 = r" "tube_opacity (line e2) = o2"
    using b by (auto simp: opacity_of_def)
  have "inj_on ?f (set (transactionEdges u))"
    using d by (simp add: tracked_refs_def distinct_map)
  then have "e1 = e2" using e1 e2 by (auto dest: inj_onD)
  then show ?thesis using e1 e2 by simp
qed

lemma run_append_reached:
  "reached (run (evs1 @ evs2) s) =
     (case run evs1 s of Inl et \<Rightarrow> reached (run evs1 s) | Inr u \<Rightarrow> reached (run evs2 u))"
  by (simp add: run_append split: sum.splits)

section \<open>Consequences of a completed pass\<close>


lemma ring_position_core:
  assumes init: "scene s \<noteq> None" and ag: "agents d = Some ag"
    and pass: "update_agents now (Some d) s = Inr s1"
    and fresh: "map_of (agentMeshes s) (agent_id a) = None"
    and first: "find (\<lambda>x. agent_id x = agent_id a)
                  (or_empty (coordinators ag) @ or_empty (solvers ag)) = Some a"
    and listed: "a \<in> set (if role a = ''coordinator'' then or_empty (coordinators ag)
                           else or_empty (solvers ag))"
  shows "let grp = (if role a = ''coordinator'' then or_empty (coordinators ag)
                    else or_empty (solvers ag));
             i = findIndex (\<lambda>x. agent_id x = agent_id a) grp;
             angle = real_of_int i / real (length grp) * pi * 2
                       + (if role a = ''coordinator'' then 0 else pi / 4);
             radius = (if role a = ''coordinator'' then 15 else 25)
         in 0 \<le> i \<and> i < int (length grp) \<and> agent_id (grp ! nat i) = agent_id a
          \<and> (\<forall>j<nat i. agent_id (grp ! j) \<noteq> agent_id a)
          \<and> (\<exists>m1 m2. map_of (agentMeshes s1) (agent_id a) = Some m1
                \<and> position m1 = (Num (cos angle * radius), Num 0, Num (sin angle * radius))
                \<and> (role a = ''coordinator'' \<and> length grp = 1 \<longrightarrow> position m1 = (Num 15, Num 0, Num 0))
                \<and> map_of (agentMeshes (reached (run evs s1))) (agent_id a) = Some m2
                \<and> position m2 = position m1 \<and> obj_ref m2 = obj_ref m1)"
proof -
  let ?cs = "or_empty (coordinators ag)" and ?ss = "or_empty (solvers ag)"
  let ?grp = "if role a = ''coordinator'' then ?cs else ?ss"
  let ?i = "findIndex (\<lambda>x. agent_id x = agent_id a) ?grp"
  let ?angle = "real_of_int ?i / real (length ?grp) * pi * 2
                       + (if role a = ''coordinator'' then 0 else pi / 4)"
  let ?radius = "if role a = ''coordinator'' then 15 else 25 :: real"
  have f: "forEach (update_agent now ?cs ?ss) (?cs @ ?ss) s = Inr s1"
    using pass update_agents_forEach [OF init ag, of now] by simp
  obtain m1 where m1: "map_of (agentMeshes s1) (agent_id a) = Some m1"
    and p1: "position m1 = ring_position a ?cs ?ss"
    using pass_creates_at [OF f fresh first] by blast
  have p1': "position m1 = (Num (cos ?angle * ?radius), Num 0, Num (sin ?angle * ?radius))"
    unfolding p1 ring_position_listed [OF listed] Let_def by (rule refl)
  have ex: "\<exists>x\<in>set ?grp. agent_id x = agent_id a" using listed by blast
  note fi = findIndex_found [OF ex] findIndex_bounds [of "\<lambda>x. agent_id x = agent_id a" ?grp]
  have single: "position m1 = (Num 15, Num 0, Num 0)"
    if "role a = ''coordinator''" "length ?grp = 1"
  proof -
    have "?i = 0" using fi that by simp
    then show ?thesis using p1' that by simp
  qed
  have "kept s1 (reached (run evs s1))" by (rule run_reached_kept)
  then obtain m2 where "map_of (agentMeshes (reached (run evs s1))) (agent_id a) = Some m2"
    "position m2 = position m1" "obj_ref m2 = obj_ref m1"
    using m1 by blast
  then show ?thesis
    unfolding Let_def using fi m1 p1' single by blast
qed

lemma override_core:
  assumes init: "scene s \<noteq> None" and ag: "agents d = Some ag"
    and pass: "update_agents now (Some d) s = Inr s'"
  shows "agentMeshes (handleClick f s') = agentMeshes s'
       \<and> selectedAgent s' = selectedAgent s
       \<and> list_all (\<lambda>a. carries_override (agent_id a) s' = is_selected (selectedAgent s) (agent_id a))
            (or_empty (coordinators ag) @ or_empty (solvers ag))
       \<and> (\<forall>a\<in>set (or_empty (coordinators ag) @ or_empty (solvers ag)).
           \<forall>b\<in>set (or_empty (coordinators ag) @ or_empty (solvers ag)).
             carries_override (agent_id a) s' \<and> carries_override (agent_id b) s'
               \<longrightarrow> agent_id a = agent_id b)"
proof -
  let ?cs = "or_empty (coordinators ag)" and ?ss = "or_empty (solvers ag)"
  have f: "forEach (update_agent now ?cs ?ss) (?cs @ ?ss) s = Inr s'"
    using pass update_agents_forEach [OF init ag, of now] by simp
  have sel: "selectedAgent s' = selectedAgent s" using forEach_selectedAgent [OF f] .
  have each: "carries_override (agent_id a) s' = is_selected (selectedAgent s) (agent_id a)"
    if mem: "a \<in> set (?cs @ ?ss)" for a
  proof -
    obtain m0 a' where a': "find (\<lambda>x. agent_id x = agent_id a) (rev (?cs @ ?ss)) = Some a'"
      and m: "map_of (agentMeshes s') (agent_id a) = Some (refresh_mesh now (selectedAgent s) a' m0)"
      using pass_result [OF f mem] by blast
    have "agent_id a' = agent_id a" using a' by (auto dest: find_Some_iff [THEN iffD1])
    then show ?thesis
      using m refresh_mesh_override [of now "selectedAgent s" a' m0]
      by (simp add: carries_override_def)
  qed
  have one: "agent_id a = agent_id b"
    if "a \<in> set (?cs @ ?ss)" "b \<in> set (?cs @ ?ss)"
      "carries_override (agent_id a) s'" "carries_override (agent_id b) s'" for a b
    using each [OF that(1)] each [OF that(2)] that(3,4)
    by (auto simp: is_selected_def split: option.splits)
  have "list_all (\<lambda>a. carries_override (agent_id a) s' = is_selected (selectedAgent s) (agent_id a)) (?cs @ ?ss)"
    unfolding list_all_iff using each by blast
  then show ?thesis using sel one by (simp only: handleClick_fields) blast
qed


section \<open>One object per agent identifier\<close>



section \<open>Ring position at creation\<close>

text \<open>
  C3. Let the delivered snapshot use no inherited property name as an identifier, and
  take an agent \<open>a\<close> of the snapshot whose identifier has no object yet, that is the
  first entry of the snapshot with this identifier and that is listed in the group of its
  role. The pass of the agent effect completes, and its mesh then lies at
  \<open>(cos angle * radius, 0, sin angle * radius)\<close>, where \<open>radius\<close> is 15 for a coordinator
  and 25 otherwise, and \<open>angle\<close> is \<open>index / group size * 2 pi\<close> (plus \<open>pi / 4\<close> off the
  coordinator ring) for the index of the first entry of the group with this identifier; a
  single coordinator lies at \<open>(15, 0, 0)\<close>. In the state that any later session reaches,
  whether it completes or is ended by an exception, the identifier still has the same
  object at the same position.
\<close>

theorem C3_ring_position_is_fixed:
  assumes init: "scene s \<noteq> None"
    and cur: "swarmData s = Some d" and ag: "agents d = Some ag"
    and plain: "list_all (\<lambda>x. agent_id x \<notin> set Object_prototype_keys)
                  (or_empty (coordinators ag) @ or_empty (solvers ag))"
    and fresh: "map_of (agentMeshes s) (agent_id a) = None"
    and first: "find (\<lambda>x. agent_id x = agent_id a)
                  (or_empty (coordinators ag) @ or_empty (solvers ag)) = Some a"
    and listed: "a \<in> set (if role a = ''coordinator'' then or_empty (coordinators ag)
                           else or_empty (solvers ag))"
  shows "\<exists>s1. step (AgentsEffect now) s = Inr s1 \<and>
        (let grp = (if role a = ''coordinator'' then or_empty (coordinators ag)
                    else or_empty (solvers ag));
             i = findIndex (\<lambda>x. agent_id x = agent_id a) grp;
             angle = real_of_int i / real (length grp) * pi * 2
                       + (if role a = ''coordinator'' then 0 else pi / 4);
             radius = (if role a = ''coordinator'' then 15 else 25)
         in 0 \<le> i \<and> i < int (length grp) \<and> agent_id (grp ! nat i) = agent_id a
          \<and> (\<forall>j<nat i. agent_id (grp ! j) \<noteq> agent_id a)
          \<and> (\<exists>m1 m2. map_of (agentMeshes s1) (agent_id a) = Some m1
                \<and> position m1 = (Num (cos angle * radius), Num 0, Num (sin angle * radius))
                \<and> (role a = ''coordinator'' \<and> length grp = 1 \<longrightarrow> position m1 = (Num 15, Num 0, Num 0))
                \<and> map_of (agentMeshes (reached (run evs s1))) (agent_id a) = Some m2
                \<and> position m2 = position m1 \<and> obj_ref m2 = obj_ref m1))"
proof -
  obtain s1 where pass: "update_agents now (Some d) s = Inr s1"
    using update_agents_total [of "Some d" now s] plain ag by (auto simp: roster_of_def)
  have st: "step (AgentsEffect now) s = Inr s1" using pass cur by simp
  show ?thesis
    using ring_position_core [OF init ag pass fresh first listed, of evs] st by blast
qed

theorem C3_ring_position_is_fixed_witness:
  "step (AgentsEffect 1000) (delivered scenario1) = Inr first_sighting
   \<and> position_of ''c1'' first_sighting = Some (Num 15, Num 0, Num 0)
   \<and> findIndex (\<lambda>x. agent_id x = ''c1'') (or_empty (coordinators (the (agents reordered)))) = 1
   \<and> position_of ''c1'' (reached (run [Deliver (Some reordered), AgentsEffect 2000] first_sighting))
       = Some (Num 15, Num 0, Num 0)"
proof -
  let ?a = "plain_agent ''c1'' ''coordinator''"
  let ?ag = "\<lparr>coordinators = Some [?a], solvers = Some []\<rparr>"
  let ?evs = "[Deliver (Some reordered), AgentsEffect 2000]"
  have init: "scene (delivered scenario1) \<noteq> None"
    by (simp add: delivered_def init_scene_def)
  have cur: "swarmData (delivered scenario1) = Some scenario1"
    by (simp add: delivered_def)
  have ag: "agents scenario1 = Some ?ag"
    by (simp add: scenario1_def)
  have plain: "list_all (\<lambda>x. agent_id x \<notin> set Object_prototype_keys)
                 (or_empty (coordinators ?ag) @ or_empty (solvers ?ag))"
    by (simp add: or_empty_def plain_agent_def Object_prototype_keys_def)
  have pass: "step (AgentsEffect 1000) (delivered scenario1) = Inr first_sighting"
    by (simp add: first_sighting_def delivered_def scenario1_def plain_agent_def model_defs)
  have fresh: "map_of (agentMeshes (delivered scenario1)) (agent_id ?a) = None"
    by (simp add: delivered_def init_scene_def mounted_def)
  have first: "find (\<lambda>x. agent_id x = agent_id ?a)
                  (or_empty (coordinators ?ag) @ or_empty (solvers ?ag)) = Some ?a"
    by (simp add: or_empty_def)
  have listed: "?a \<in> set (if role ?a = ''coordinator'' then or_empty (coordinators ?ag)
                           else or_empty (solvers ?ag))"
    by (simp add: or_empty_def plain_agent_def)
  have idx: "findIndex (\<lambda>x. agent_id x = ''c1'') (or_empty (coordinators (the (agents reordered)))) = 1"
    by (simp add: reordered_def or_empty_def plain_agent_def)
  have c: "role ?a = ''coordinator''" "agent_id ?a = ''c1''" by (simp_all add: plain_agent_def)
  obtain s1 m1 m2 where r: "step (AgentsEffect 1000) (delivered scenario1) = Inr s1"
    "map_of (agentMeshes s1) ''c1'' = Some m1" "position m1 = (Num 15, Num 0, Num 0)"
    "map_of (agentMeshes (reached (run ?evs s1))) ''c1'' = Some m2" "position m2 = position m1"
    using C3_ring_position_is_fixed [OF init cur ag plain fresh first listed, of 1000 ?evs]
    unfolding Let_def c by (auto simp: or_empty_def)
  have s1: "s1 = first_sighting" using r(1) pass by simp
  show ?thesis using r(2-5) pass idx unfolding s1 by (simp add: position_of_def)
qed

section \<open>Fading of an edge\<close>

text \<open>
  C5, as stated, fails. An edge is created with opacity 0.7; the sweep writes
  \<open>1 - age / 3000\<close>. In the session below the bid's edge (tube 4) is created at 3990 ms
  directly behind an edge that expires; the sweep at 4001 ms removes that edge and passes
  over tube 4, which is drawn with opacity 0.7 at age 11 ms, and the sweep at 4017 ms
  raises it to 0.991 at age 27 ms.
\<close>

theorem C5_opacity_rises_after_creation:
  "tracked_opacity (projr (run (take 8 late_edge_session) (init_scene mounted))) = [(2, 2 / 375), (4, 7 / 10)]
   \<and> tracked_age 4001 (projr (run (take 9 late_edge_session) (init_scene mounted))) = [(4, 11)]
   \<and> tracked_opacity (projr (run (take 9 late_edge_session) (init_scene mounted))) = [(4, 7 / 10)]
   \<and> tracked_age 4017 (projr (run late_edge_session (init_scene mounted))) = [(4, 27)]
   \<and> tracked_opacity (projr (run late_edge_session (init_scene mounted))) = [(4, 991 / 1000)]"
  by (simp add: tracked_opacity_def tracked_age_def late_edge_session_def pair_snapshot_def
        bid_def announcement_def plain_agent_def model_defs sweep_defs)

text \<open>
  C5, amended. Take a tracked edge in a state with a well-formed registry and scene, and
  a sweep that visits it: the edge is the first tracked edge, or the edge stored directly
  before it is still tracked after the sweep. At age at most 3000 ms the sweep stores
  \<open>1 - age / 3000\<close> as the opacity of the edge; at age above 3000 ms the sweep removes the
  edge from the tracked edges and from the scene. From that sweep on, along every session
  whose frames happen in the order of the clock, the stored opacity does not increase:
  at a later moment of the session it is at most what it was at an earlier moment.
\<close>

theorem C5_fade_when_visited:
  assumes wf: "registry_wf s" and sw: "scene_wf s"
    and i: "i < length (transactionEdges s)"
    and visit: "i = 0 \<or> tube_ref (line (transactionEdges s ! (i - 1)))
                          \<in> set (tracked_refs (animate now s))"
    and order: "frames_from now (evs1 @ evs2)"
  shows "let e = transactionEdges s ! i; r = tube_ref (line e); age = now - timestamp e;
             s' = animate now s
         in (age \<le> 3000 \<longrightarrow> opacity_of r s' = [1 - real_of_int age / 3000])
          \<and> (age > 3000 \<longrightarrow> r \<notin> set (tracked_refs s') \<and> \<not> in_scene r s')
          \<and> (\<forall>o1\<in>set (opacity_of r (reached (run evs1 s'))).
               \<forall>o2\<in>set (opacity_of r (reached (run (evs1 @ evs2) s'))). o2 \<le> o1)"
proof -
  let ?es = "transactionEdges s"
  let ?ref = "\<lambda>e. tube_ref (line e)"
  let ?e = "?es ! i"
  let ?r = "?ref ?e"
  let ?ts = "timestamp ?e"
  let ?s' = "animate now s"
  let ?o = "1 - real_of_int (now - ?ts) / 3000"
  have ne: "?es \<noteq> []" using i by auto
  then obtain ch where sc: "scene s = Some ch"
    using sw by (cases "scene s") (auto simp: scene_wf_def)
  have dch: "distinct ch" and dt: "distinct (map ?ref ?es)"
    and tb: "\<forall>r\<in>set (map ?ref ?es). r < next_ref s"
    using sw sc by (simp_all add: scene_wf_def list_all_iff tracked_refs_def)
  have an: "?s' = s\<lparr>transactionEdges := sweep now ?es,
                     scene := Some (fold remove1 (removed_refs now ?es) ch)\<rparr>"
    using animate_sweep [OF sc] .
  have tr': "tracked_refs ?s' = map ?ref (sweep now ?es)"
    unfolding an by (simp add: tracked_refs_def)
  have ex: "set (map ?ref (sweep now ?es)) = set (map ?ref ?es) - set (removed_refs now ?es)"
    and ds: "distinct (map ?ref (sweep now ?es))"
    using sweep_refs_exact [OF dt, of now] by simp_all
  have vis: "visits now ?es ! i"
  proof (rule ccontr)
    assume "\<not> visits now ?es ! i"
    then have "0 < i" "?ref (?es ! (i - 1)) \<in> set (removed_refs now ?es)"
      using passed_over [OF i] by simp_all
    then show False using visit ex unfolding tr' by auto
  qed
  have mem: "?e \<in> set ?es" using i by simp
  have young: "fade now ?e \<in> set (sweep now ?es) \<and> opacity_of ?r ?s' = [?o]"
    if y: "now - ?ts \<le> 3000"
  proof -
    have m: "fade now ?e \<in> set (sweep now ?es)"
      using visited_young [OF i vis] y by (simp add: maxAge_def)
    have "filter (\<lambda>y. ?ref y = ?ref (fade now ?e)) (sweep now ?es) = [fade now ?e]"
      using ds m by (rule filter_unique)
    then have "opacity_of ?r ?s' = [tube_opacity (line (fade now ?e))]"
      unfolding an by (simp add: opacity_of_def)
    then show ?thesis using m by (simp add: fade_def maxAge_def)
  qed
  have old: "?r \<notin> set (tracked_refs ?s') \<and> \<not> in_scene ?r ?s'"
    if x: "now - ?ts > 3000"
  proof -
    have rm: "?r \<in> set (removed_refs now ?es)"
      using visited_old [OF i vis] x by (simp add: maxAge_def)
    then have "?r \<notin> set (tracked_refs ?s')" unfolding tr' ex by simp
    moreover have "?r \<notin> set (fold remove1 (removed_refs now ?es) ch)"
      using dch rm by (rule fold_remove1_gone)
    ultimately show ?thesis unfolding an by (simp add: in_scene_def)
  qed
  have w': "registry_wf ?s'" "scene_wf ?s'"
    using registry_wf_cong [of ?s' s] wf animate_scene_wf [OF wf sw, of now] by simp_all
  have f0: "fading ?r ?ts now ?o ?s'"
  proof -
    have "?r < next_ref ?s'" using tb mem by simp
    moreover have "timestamp e' = ?ts \<and> ?o \<le> tube_opacity (line e') \<and> tube_opacity (line e') \<le> ?o"
      if e': "e' \<in> set (transactionEdges ?s')" "?ref e' = ?r" for e'
    proof (cases "now - ?ts \<le> 3000")
      case True
      have "filter (\<lambda>y. ?ref y = ?ref (fade now ?e)) (sweep now ?es) = [fade now ?e]"
        using ds young [OF True] by (intro filter_unique) simp_all
      moreover have "e' \<in> set (filter (\<lambda>y. ?ref y = ?ref (fade now ?e)) (sweep now ?es))"
        using e' unfolding an by simp
      ultimately have "e' = fade now ?e" by simp
      then show ?thesis by (simp add: fade_def maxAge_def)
    next
      case False
      then have "?r \<notin> set (tracked_refs ?s')" using old by simp
      moreover have "?ref e' \<in> set (tracked_refs ?s')"
        using e'(1) by (simp add: tracked_refs_def)
      ultimately show ?thesis using e'(2) by simp
    qed
    ultimately show ?thesis unfolding fading_def list_all_iff by blast
  qed
  have fr: "frames_from now evs1" "frames_from (last_frame now evs1) evs2"
    using frames_from_append [OF order] by simp_all
  let ?u1 = "reached (run evs1 ?s')"
  have f1: "fading ?r ?ts (last_frame now evs1) ?o ?u1"
    using fading_run [OF f0 fr(1)] .
  have d1: "distinct (tracked_refs ?u1)"
    using run_inv [OF w', of evs1] by (simp add: scene_wf_def)
  have mono: "o2 \<le> o1"
    if o1: "o1 \<in> set (opacity_of ?r ?u1)"
      and o2: "o2 \<in> set (opacity_of ?r (reached (run (evs1 @ evs2) ?s')))" for o1 o2
  proof (cases "run evs1 ?s'")
    case (Inl et)
    then have "reached (run (evs1 @ evs2) ?s') = ?u1" by (simp add: run_append_reached)
    then show ?thesis using opacity_of_unique [OF d1 o1] o2 by simp
  next
    case (Inr u)
    then have u: "?u1 = u" and r2: "reached (run (evs1 @ evs2) ?s') = reached (run evs2 ?u1)"
      by (simp_all add: run_append_reached)
    have "fading ?r ?ts (last_frame now evs1) o1 ?u1"
    proof -
      have "tube_opacity (line e') \<le> o1"
        if "e' \<in> set (transactionEdges ?u1)" "?ref e' = ?r" for e'
      proof -
        have "tube_opacity (line e') \<in> set (opacity_of ?r ?u1)"
          using that by (auto simp: opacity_of_def)
        then show ?thesis using opacity_of_unique [OF d1 o1] by simp
      qed
      then show ?thesis using f1 unfolding fading_def list_all_iff by blast
    qed
    from fading_run [OF this fr(2)]
    have "\<forall>e'\<in>set (transactionEdges (reached (run evs2 ?u1))). ?ref e' = ?r \<longrightarrow>
            tube_opacity (line e') \<le> o1"
      unfolding fading_def list_all_iff by blast
    then show ?thesis using o2 unfolding r2 by (auto simp: opacity_of_def)
  qed
  show ?thesis
    unfolding Let_def using young old mono by blast
qed

theorem C5_fade_when_visited_witness:
  "registry_wf broadcast_state \<and> scene_wf broadcast_state
   \<and> tracked_age 2500 broadcast_state = [(3, 1500), (5, 1500)]
   \<and> 3 \<in> set (tracked_refs (animate 2500 broadcast_state))
   \<and> opacity_of 5 (animate 2500 broadcast_state) = [1 / 2]
   \<and> frames_from 2500 [Frame 3000, Frame 4000]
   \<and> hd (opacity_of 5 (reached (run [Frame 3000, Frame 4000] (animate 2500 broadcast_state))))
       \<le> hd (opacity_of 5 (reached (run [Frame 3000] (animate 2500 broadcast_state))))
   \<and> opacity_of 5 (reached (run [Frame 3000] (animate 2500 broadcast_state))) = [1 / 3]
   \<and> opacity_of 5 (reached (run [Frame 3000, Frame 4000] (animate 2500 broadcast_state))) = [0]
   \<and> tracked_age 4001 broadcast_state = [(3, 3001), (5, 3001)]
   \<and> 3 \<notin> set (tracked_refs (animate 4001 broadcast_state))
   \<and> \<not> in_scene 3 (animate 4001 broadcast_state)"
proof -
  let ?es = "transactionEdges broadcast_state"
  have l: "length ?es = 2"
    using arg_cong [OF broadcast_state_edges, of length] by simp
  have t0: "tube_ref (line (?es ! 0)) = 3" "timestamp (?es ! 0) = 1000"
    using arg_cong [OF broadcast_state_edges, of "\<lambda>xs. xs ! 0"] l by simp_all
  have t1: "tube_ref (line (?es ! 1)) = 5" "timestamp (?es ! 1) = 1000"
    using arg_cong [OF broadcast_state_edges, of "\<lambda>xs. xs ! 1"] l by simp_all
  have wf: "registry_wf broadcast_state"
    by (simp add: registry_wf_def mesh_ok_def broadcast_state_def scenario3_def plain_agent_def
          model_defs)
  have sw: "scene_wf broadcast_state"
    by (simp add: scene_wf_def mesh_refs_def tracked_refs_def broadcast_state_def scenario3_def
          plain_agent_def model_defs)
  have ages: "tracked_age 2500 broadcast_state = [(3, 1500), (5, 1500)]"
    "tracked_age 4001 broadcast_state = [(3, 3001), (5, 3001)]"
    by (simp_all add: tracked_age_def broadcast_state_def scenario3_def plain_agent_def model_defs)
  have kept: "3 \<in> set (tracked_refs (animate 2500 broadcast_state))"
    by (simp add: tracked_refs_def broadcast_state_def scenario3_def plain_agent_def model_defs
          sweep_defs)
  have later: "opacity_of 5 (reached (run [Frame 3000] (animate 2500 broadcast_state))) = [1 / 3]"
    "opacity_of 5 (reached (run [Frame 3000, Frame 4000] (animate 2500 broadcast_state))) = [0]"
    by (simp_all add: opacity_of_def broadcast_state_def scenario3_def plain_agent_def model_defs
          sweep_defs)
  have i1: "1 < length ?es" and i0: "0 < length ?es" using l by simp_all
  have v1: "(1 :: nat) = 0 \<or> tube_ref (line (?es ! (1 - 1)))
              \<in> set (tracked_refs (animate 2500 broadcast_state))"
    using kept t0 by simp
  have order: "frames_from 2500 ([Frame 3000] @ [Frame 4000])" by simp
  have a: "opacity_of 5 (animate 2500 broadcast_state) = [1 / 2]
     \<and> (\<forall>o1\<in>set (opacity_of 5 (reached (run [Frame 3000] (animate 2500 broadcast_state)))).
        \<forall>o2\<in>set (opacity_of 5 (reached (run [Frame 3000, Frame 4000]
                                            (animate 2500 broadcast_state)))). o2 \<le> o1)"
    using C5_fade_when_visited [OF wf sw i1 v1 order] unfolding Let_def t1 by simp
  have b: "3 \<notin> set (tracked_refs (animate 4001 broadcast_state))
           \<and> \<not> in_scene 3 (animate 4001 broadcast_state)"
    using C5_fade_when_visited [OF wf sw i0, of 4001 "[]" "[]"] unfolding Let_def t0 by simp
  have m: "hd (opacity_of 5 (reached (run [Frame 3000, Frame 4000] (animate 2500 broadcast_state))))
       \<le> hd (opacity_of 5 (reached (run [Frame 3000] (animate 2500 broadcast_state))))"
    using a unfolding later by simp
  show ?thesis using a b m wf sw ages kept later by simp
qed


section \<open>The selection override\<close>

text \<open>
  C6, as stated, fails. The click handler only stores the selection; the override is
  written and cleared by the agent effect, and only on meshes of agents in the current
  snapshot. In the first session below \<open>s1\<close> is selected and highlighted, then \<open>s2\<close> is
  picked: after the pick \<open>s1\<close> still carries the override. In the second session \<open>s1\<close>
  has left the snapshot before \<open>s2\<close> is picked: after the following pass both meshes
  carry the override.
\<close>

theorem C6_two_override_holders:
  "selected_id (projr (run [Deliver (Some scenario3), AgentsEffect 1000, Click (hit_agent ''s1''),
                           AgentsEffect 1100, Click (hit_agent ''s2'')] (init_scene mounted)))
     = Some ''s2''
   \<and> carries_override ''s1''
        (projr (run [Deliver (Some scenario3), AgentsEffect 1000, Click (hit_agent ''s1''),
                     AgentsEffect 1100, Click (hit_agent ''s2'')] (init_scene mounted)))
   \<and> selected_id (projr (run [Deliver (Some scenario3), AgentsEffect 1000, Click (hit_agent ''s1''),
                     AgentsEffect 1100, Deliver (Some without_s1), AgentsEffect 2000,
                     Click (hit_agent ''s2''), AgentsEffect 2100] (init_scene mounted)))
     = Some ''s2''
   \<and> carries_override ''s1''
        (projr (run [Deliver (Some scenario3), AgentsEffect 1000, Click (hit_agent ''s1''),
                     AgentsEffect 1100, Deliver (Some without_s1), AgentsEffect 2000,
                     Click (hit_agent ''s2''), AgentsEffect 2100] (init_scene mounted)))
   \<and> carries_override ''s2''
        (projr (run [Deliver (Some scenario3), AgentsEffect 1000, Click (hit_agent ''s1''),
                     AgentsEffect 1100, Deliver (Some without_s1), AgentsEffect 2000,
                     Click (hit_agent ''s2''), AgentsEffect 2100] (init_scene mounted)))"
  by (simp add: carries_override_def selected_id_def scenario3_def without_s1_def
        plain_agent_def model_defs)

text \<open>
  C6, amended. A pass of the agent effect over a snapshot that uses no inherited
  property name as an identifier completes. After it, a mesh of an agent of the snapshot
  carries the override (glow 0.8 and ring opacity 0.8) exactly when the agent's
  identifier is the selected one, so at most one identifier of the snapshot carries it.
  The pass does not change the selection, and a pick changes no mesh.
\<close>

theorem C6_override_follows_selection:
  assumes init: "scene s \<noteq> None" and ag: "agents d = Some ag"
    and plain: "list_all (\<lambda>a. agent_id a \<notin> set Object_prototype_keys) (roster_of (Some d))"
  shows "\<exists>s'. update_agents now (Some d) s = Inr s'
       \<and> agentMeshes (handleClick f s') = agentMeshes s'
       \<and> selectedAgent s' = selectedAgent s
       \<and> list_all (\<lambda>a. carries_override (agent_id a) s' = is_selected (selectedAgent s) (agent_id a))
            (or_empty (coordinators ag) @ or_empty (solvers ag))
       \<and> (\<forall>a\<in>set (or_empty (coordinators ag) @ or_empty (solvers ag)).
           \<forall>b\<in>set (or_empty (coordinators ag) @ or_empty (solvers ag)).
             carries_override (agent_id a) s' \<and> carries_override (agent_id b) s'
               \<longrightarrow> agent_id a = agent_id b)"
proof -
  obtain s' where pass: "update_agents now (Some d) s = Inr s'"
    using update_agents_total [OF plain] by blast
  show ?thesis
    using override_core [OF init ag pass, of f] pass by blast
qed

theorem C6_override_follows_selection_witness:
  "selected_id (projr (run [Deliver (Some scenario3), AgentsEffect 1000, Click (hit_agent ''s1'')]
                         (init_scene mounted))) = Some ''s1''
   \<and> carries_override ''s1''
        (projr (run [Deliver (Some scenario3), AgentsEffect 1000, Click (hit_agent ''s1''),
                     AgentsEffect 1100] (init_scene mounted)))
   \<and> \<not> carries_override ''s2''
        (projr (run [Deliver (Some scenario3), AgentsEffect 1000, Click (hit_agent ''s1''),
                     AgentsEffect 1100] (init_scene mounted)))
   \<and> \<not> carries_override ''c1''
        (projr (run [Deliver (Some scenario3), AgentsEffect 1000, Click (hit_agent ''s1''),
                     AgentsEffect 1100] (init_scene mounted)))"
proof -
  let ?s = "projr (run [Deliver (Some scenario3), AgentsEffect 1000, Click (hit_agent ''s1'')]
                         (init_scene mounted))"
  let ?s' = "projr (run [Deliver (Some scenario3), AgentsEffect 1000, Click (hit_agent ''s1''),
                     AgentsEffect 1100] (init_scene mounted))"
  let ?ag = "\<lparr>coordinators = Some [plain_agent ''c1'' ''coordinator''],
                      solvers = Some [plain_agent ''s1'' ''solver'', plain_agent ''s2'' ''solver'']\<rparr>"
  have init: "scene ?s \<noteq> None"
    by (simp add: scenario3_def plain_agent_def model_defs)
  have ag: "agents scenario3 = Some ?ag" by (simp add: scenario3_def)
  have plain: "list_all (\<lambda>a. agent_id a \<notin> set Object_prototype_keys) (roster_of (Some scenario3))"
    by (simp add: roster_of_def scenario3_def or_empty_def plain_agent_def Object_prototype_keys_def)
  have pass: "update_agents 1100 (Some scenario3) ?s = Inr ?s'"
    by (simp add: scenario3_def plain_agent_def model_defs)
  have sel: "selectedAgent ?s = Some (plain_agent ''s1'' ''solver'')"
    by (simp add: scenario3_def plain_agent_def model_defs)
  obtain s' where r: "update_agents 1100 (Some scenario3) ?s = Inr s'"
    "list_all (\<lambda>a. carries_override (agent_id a) s' = is_selected (selectedAgent ?s) (agent_id a))
            (or_empty (coordinators ?ag) @ or_empty (solvers ?ag))"
    using C6_override_follows_selection [OF init ag plain, of 1100] by blast
  have s': "s' = ?s'" using r(1) pass by simp
  show ?thesis
    using r(2) sel unfolding s'
    by (simp add: or_empty_def is_selected_def plain_agent_def selected_id_def)
qed

section \<open>A pass is applied agent by agent\<close>

text \<open>
  C4, as stated, fails, twice. A snapshot that is null or has no \<open>agents\<close> makes the
  effect return at its guard: the registry is retained, the outcome is the one of a pass
  over a snapshot with an empty roster, and nothing tells the caller that the snapshot
  was rejected. And a pass that fails is not undone: over the roster \<open>c9, toString\<close> the
  loop registers \<open>c9\<close> and adds its mesh to the scene, then throws a \<open>TypeError\<close> at the
  second agent; the registry then holds \<open>c1\<close> and \<open>c9\<close>, neither the prior state nor
  the whole snapshot.
\<close>

theorem C4_pass_neither_signalled_nor_atomic:
  "map fst (agentMeshes first_sighting) = [''c1''] \<and> scene first_sighting = Some [0]
   \<and> update_agents 2000 None first_sighting = Inr first_sighting
   \<and> update_agents 2000 (Some no_agents) first_sighting = Inr first_sighting
   \<and> update_agents 2000 (Some empty_roster) first_sighting = Inr first_sighting
   \<and> isl (update_agents 2000 (Some poisoned) first_sighting)
   \<and> map fst (agentMeshes (reached (update_agents 2000 (Some poisoned) first_sighting)))
       = [''c1'', ''c9'']
   \<and> scene (reached (update_agents 2000 (Some poisoned) first_sighting)) = Some [0, 1]"
  by (simp add: first_sighting_def delivered_def scenario1_def empty_roster_def no_agents_def
        poisoned_def plain_agent_def model_defs)

text \<open>
  C4, amended. When the scene is unset, the snapshot is null or it has no \<open>agents\<close>, the
  pass returns normally with the state unchanged. Otherwise the agents (the entries of
  the roster being agent records) are applied one at a time, in roster order, and nothing
  is undone. When no identifier of the snapshot is a name inherited from
  \<open>Object.prototype\<close> the pass completes: every agent of the snapshot
  has a mesh carrying the last entry of the snapshot with its identifier, and the entries
  under all other identifiers are as before. At the first agent \<open>a\<close> whose identifier is
  such a name and has no registered object the pass throws a \<open>TypeError\<close>, and in the
  state at the throw the agents before \<open>a\<close> are applied: each has a mesh carrying the last
  entry among them with its identifier, and the entries under all other identifiers are
  as before.
\<close>

theorem C4_pass_in_roster_order:
  "(scene s = None \<or> \<not> has_agents sd \<longrightarrow> update_agents now sd s = Inr s)
   \<and> (scene s \<noteq> None \<and> has_agents sd
        \<and> list_all (\<lambda>a. agent_id a \<notin> set Object_prototype_keys) (roster_of sd) \<longrightarrow>
          (\<exists>s'. update_agents now sd s = Inr s'
              \<and> list_all (applied s' (roster_of sd)) (roster_of sd)
              \<and> (\<forall>k. k \<notin> agent_id ` set (roster_of sd) \<longrightarrow>
                     map_of (agentMeshes s') k = map_of (agentMeshes s) k)))
   \<and> (scene s \<noteq> None \<and> has_agents sd \<and> roster_of sd = pre @ a # post
        \<and> list_all (\<lambda>a. agent_id a \<notin> set Object_prototype_keys) pre
        \<and> agent_id a \<in> set Object_prototype_keys
        \<and> map_of (agentMeshes s) (agent_id a) = None \<longrightarrow>
          (\<exists>t. update_agents now sd s = Inl (TypeError, t)
              \<and> list_all (applied t pre) pre
              \<and> (\<forall>k. k \<notin> agent_id ` set pre \<longrightarrow>
                     map_of (agentMeshes t) k = map_of (agentMeshes s) k)))"
proof (intro conjI impI)
  assume "scene s = None \<or> \<not> has_agents sd"
  then show "update_agents now sd s = Inr s"
    by (auto simp: update_agents_def has_agents_def split: option.splits)
next
  assume a: "scene s \<noteq> None \<and> has_agents sd
             \<and> list_all (\<lambda>a. agent_id a \<notin> set Object_prototype_keys) (roster_of sd)"
  then obtain d ag where sd: "sd = Some d" and ag: "agents d = Some ag" and init: "scene s \<noteq> None"
    by (auto simp: has_agents_def split: option.splits)
  let ?cs = "or_empty (coordinators ag)" and ?ss = "or_empty (solvers ag)"
  have ro: "roster_of sd = ?cs @ ?ss" using sd ag by (simp add: roster_of_def)
  have eq: "update_agents now sd s = forEach (update_agent now ?cs ?ss) (?cs @ ?ss) s"
    unfolding sd using update_agents_forEach [OF init ag] .
  obtain s' where f: "forEach (update_agent now ?cs ?ss) (?cs @ ?ss) s = Inr s'"
    using forEach_update_agent_total [of "?cs @ ?ss" now ?cs ?ss s] a ro
    by (auto simp: list_all_iff)
  have "applied s' (?cs @ ?ss) x" if mem: "x \<in> set (?cs @ ?ss)" for x
  proof -
    obtain m0 a' where "find (\<lambda>y. agent_id y = agent_id x) (rev (?cs @ ?ss)) = Some a'"
      and "map_of (agentMeshes s') (agent_id x) = Some (refresh_mesh now (selectedAgent s) a' m0)"
      using pass_result [OF f mem] by blast
    then show ?thesis by (simp add: applied_def)
  qed
  then have "list_all (applied s' (roster_of sd)) (roster_of sd)"
    unfolding ro list_all_iff by blast
  moreover have "\<forall>k. k \<notin> agent_id ` set (roster_of sd) \<longrightarrow>
                       map_of (agentMeshes s') k = map_of (agentMeshes s) k"
    unfolding ro using forEach_update_agent_others [OF f] by blast
  ultimately show "\<exists>s'. update_agents now sd s = Inr s'
                \<and> list_all (applied s' (roster_of sd)) (roster_of sd)
                \<and> (\<forall>k. k \<notin> agent_id ` set (roster_of sd) \<longrightarrow>
                       map_of (agentMeshes s') k = map_of (agentMeshes s) k)"
    using eq f by auto
next
  assume a: "scene s \<noteq> None \<and> has_agents sd \<and> roster_of sd = pre @ a # post
        \<and> list_all (\<lambda>a. agent_id a \<notin> set Object_prototype_keys) pre
        \<and> agent_id a \<in> set Object_prototype_keys
        \<and> map_of (agentMeshes s) (agent_id a) = None"
  then obtain d ag where sd: "sd = Some d" and ag: "agents d = Some ag" and init: "scene s \<noteq> None"
    by (auto simp: has_agents_def split: option.splits)
  let ?cs = "or_empty (coordinators ag)" and ?ss = "or_empty (solvers ag)"
  have ro: "?cs @ ?ss = pre @ a # post" using sd ag a by (simp add: roster_of_def)
  have eq: "update_agents now sd s = forEach (update_agent now ?cs ?ss) (pre @ a # post) s"
    unfolding sd using update_agents_forEach [OF init ag, of now] ro by simp
  obtain t where f: "forEach (update_agent now ?cs ?ss) pre s = Inr t"
    using forEach_update_agent_total [of pre now ?cs ?ss s] a by (auto simp: list_all_iff)
  have "agent_id a \<notin> agent_id ` set pre" using a by (auto simp: list_all_iff)
  then have "map_of (agentMeshes t) (agent_id a) = None"
    using forEach_update_agent_others [OF f] a by simp
  then have "update_agent now ?cs ?ss a t = Inl (TypeError, t)"
    using a by (simp add: update_agent_def get_prop_def)
  then have thrown: "update_agents now sd s = Inl (TypeError, t)"
    unfolding eq forEach_append using f by simp
  have "applied t pre x" if mem: "x \<in> set pre" for x
  proof -
    obtain m0 a' where "find (\<lambda>y. agent_id y = agent_id x) (rev pre) = Some a'"
      and "map_of (agentMeshes t) (agent_id x) = Some (refresh_mesh now (selectedAgent s) a' m0)"
      using pass_result [OF f mem] by blast
    then show ?thesis by (simp add: applied_def)
  qed
  then have "list_all (applied t pre) pre"
    unfolding list_all_iff by blast
  moreover have "\<forall>k. k \<notin> agent_id ` set pre \<longrightarrow>
                       map_of (agentMeshes t) k = map_of (agentMeshes s) k"
    using forEach_update_agent_others [OF f] by blast
  ultimately show "\<exists>t. update_agents now sd s = Inl (TypeError, t)
              \<and> list_all (applied t pre) pre
              \<and> (\<forall>k. k \<notin> agent_id ` set pre \<longrightarrow>
                     map_of (agentMeshes t) k = map_of (agentMeshes s) k)"
    using thrown by blast
qed

theorem C4_pass_in_roster_order_witness:
  "update_agents 2000 (Some no_agents) first_sighting = Inr first_sighting
   \<and> update_agents 1000 (Some scenario1) (delivered scenario1) = Inr first_sighting
   \<and> applied first_sighting (roster_of (Some scenario1)) (plain_agent ''c1'' ''coordinator'')
   \<and> roster_of (Some poisoned)
       = [plain_agent ''c9'' ''coordinator''] @ plain_agent ''toString'' ''coordinator'' # []
   \<and> update_agents 2000 (Some poisoned) first_sighting
       = Inl (TypeError, reached (update_agents 2000 (Some poisoned) first_sighting))
   \<and> applied (reached (update_agents 2000 (Some poisoned) first_sighting))
       [plain_agent ''c9'' ''coordinator''] (plain_agent ''c9'' ''coordinator'')
   \<and> map_of (agentMeshes (reached (update_agents 2000 (Some poisoned) first_sighting))) ''c1''
       = map_of (agentMeshes first_sighting) ''c1''"
proof -
  let ?c9 = "plain_agent ''c9'' ''coordinator''" and ?ts = "plain_agent ''toString'' ''coordinator''"
  have ro: "roster_of (Some scenario1) = [plain_agent ''c1'' ''coordinator'']"
    by (simp add: roster_of_def scenario1_def or_empty_def)
  have rp: "roster_of (Some poisoned) = [?c9] @ ?ts # []"
    by (simp add: roster_of_def poisoned_def or_empty_def)
  have ids: "list_all (\<lambda>a. agent_id a \<notin> set Object_prototype_keys) (roster_of (Some scenario1))"
    unfolding ro by (simp add: plain_agent_def Object_prototype_keys_def)
  have idp: "list_all (\<lambda>a. agent_id a \<notin> set Object_prototype_keys) [?c9]"
    "agent_id ?ts \<in> set Object_prototype_keys" "''c1'' \<notin> agent_id ` set [?c9]"
    by (simp_all add: plain_agent_def Object_prototype_keys_def)
  have init: "scene (delivered scenario1) \<noteq> None" "scene first_sighting \<noteq> None"
    by (simp_all add: first_sighting_def delivered_def scenario1_def plain_agent_def model_defs)
  have ag: "has_agents (Some scenario1)" "\<not> has_agents (Some no_agents)" "has_agents (Some poisoned)"
    by (simp_all add: has_agents_def scenario1_def no_agents_def poisoned_def)
  have unk: "map_of (agentMeshes first_sighting) (agent_id ?ts) = None"
    by (simp add: first_sighting_def delivered_def scenario1_def plain_agent_def model_defs)
  have pass: "update_agents 1000 (Some scenario1) (delivered scenario1) = Inr first_sighting"
    by (simp add: first_sighting_def delivered_def scenario1_def plain_agent_def model_defs)
  note guard = C4_pass_in_roster_order [of first_sighting "Some no_agents" 2000, THEN conjunct1]
  note whole = C4_pass_in_roster_order [of "delivered scenario1" "Some scenario1" 1000,
      THEN conjunct2, THEN conjunct1]
  note part = C4_pass_in_roster_order [of first_sighting "Some poisoned" 2000 "[?c9]" ?ts "[]",
      THEN conjunct2, THEN conjunct2]
  have g: "update_agents 2000 (Some no_agents) first_sighting = Inr first_sighting"
    using guard ag by simp
  have w: "applied first_sighting (roster_of (Some scenario1)) (plain_agent ''c1'' ''coordinator'')"
    using whole init ag ids pass unfolding ro by auto
  obtain t where t: "update_agents 2000 (Some poisoned) first_sighting = Inl (TypeError, t)"
    "list_all (applied t [?c9]) [?c9]"
    "\<forall>k. k \<notin> agent_id ` set [?c9] \<longrightarrow> map_of (agentMeshes t) k = map_of (agentMeshes first_sighting) k"
    using part init ag rp idp unk by blast
  have r: "reached (update_agents 2000 (Some poisoned) first_sighting) = t" using t(1) by simp
  show ?thesis
    unfolding r using g pass w rp t idp(3) by simp
qed

section \<open>Targets of a message\<close>





section \<open>Picking\<close>

text \<open>
  C8. In every state reached from the initialised scene by events whose rays strike
  candidates only, a pick whose ray strikes candidates only returns without an error. If
  nothing is struck the selection is cleared. If a mesh is struck first, it carries a
  snapshot of its agent, is registered under that agent's identifier, and the selection
  becomes that snapshot. With an empty registry nothing was selected and the pick leaves
  the state as it is.
\<close>

theorem C8_pick_hit_or_miss:
  assumes reach: "run evs (init_scene mounted) = Inr s"
    and rays: "\<forall>g. Click g \<in> set evs \<longrightarrow> (\<forall>ms. set (g ms) \<subseteq> set ms)"
    and ray: "set (f (Object_values (agentMeshes s))) \<subseteq> set (Object_values (agentMeshes s))"
  shows "step (Click f) s = Inr (handleClick f s)
       \<and> (f (Object_values (agentMeshes s)) = [] \<longrightarrow> handleClick f s = s\<lparr>selectedAgent := None\<rparr>)
       \<and> (\<forall>m ms. f (Object_values (agentMeshes s)) = m # ms \<longrightarrow>
            (\<exists>d. userData_agentData m = Some d \<and> agent_id d = userData_agentId m
                \<and> map_of (agentMeshes s) (agent_id d) = Some m
                \<and> handleClick f s = s\<lparr>selectedAgent := Some d\<rparr>))
       \<and> (agentMeshes s = [] \<longrightarrow> selectedAgent s = None \<and> handleClick f s = s)"
proof -
  have "registry_wf (init_scene mounted)" "selection_known (init_scene mounted)"
    by (simp_all add: registry_wf_def init_scene_def mounted_def)
  then have wf: "registry_wf s" and sk: "selection_known s"
    using run_wf_selection [OF reach _ _ rays] by blast+
  have miss: "handleClick f s = s\<lparr>selectedAgent := None\<rparr>"
    if "f (Object_values (agentMeshes s)) = []"
    using that by (simp add: handleClick_def)
  have hit: "\<exists>d. userData_agentData m = Some d \<and> agent_id d = userData_agentId m
                \<and> map_of (agentMeshes s) (agent_id d) = Some m
                \<and> handleClick f s = s\<lparr>selectedAgent := Some d\<rparr>"
    if "f (Object_values (agentMeshes s)) = m # ms" for m ms
    using handleClick_hit [of s f m ms, OF wf ray that] .
  have empty: "selectedAgent s = None \<and> handleClick f s = s" if e: "agentMeshes s = []"
  proof -
    have n: "selectedAgent s = None" using sk e by (cases "selectedAgent s") auto
    have "f (Object_values (agentMeshes s)) = []"
      using ray e by (simp add: Object_values_def)
    then have "handleClick f s = s\<lparr>selectedAgent := None\<rparr>" by (rule miss)
    then show ?thesis using n by simp
  qed
  show ?thesis using miss hit empty by (simp only: step.simps) blast
qed

theorem C8_pick_hit_or_miss_witness:
  "selected_id (handleClick hit_nothing roster_state) = None
   \<and> selected_id (handleClick (hit_agent ''s1'') (handleClick hit_nothing roster_state)) = Some ''s1''
   \<and> selectedAgent (handleClick (hit_agent ''s1'') (handleClick hit_nothing roster_state))
       = userData_agentData (the (map_of (agentMeshes roster_state) ''s1''))
   \<and> handleClick (hit_agent ''s1'') (init_scene mounted) = init_scene mounted"
proof -
  let ?evs = "[Deliver (Some scenario3), AgentsEffect 1000]"
  let ?s1 = "handleClick hit_nothing roster_state"
  have r0: "run ?evs (init_scene mounted) = Inr roster_state"
    by (simp add: roster_state_def scenario3_def plain_agent_def model_defs)
  have "run (?evs @ [Click hit_nothing]) (init_scene mounted) = run [Click hit_nothing] roster_state"
    by (simp only: run_append r0 sum.case)
  then have r1: "run (?evs @ [Click hit_nothing]) (init_scene mounted) = Inr ?s1"
    by (simp add: run_def)
  have r2: "run [] (init_scene mounted) = Inr (init_scene mounted)"
    by (simp add: run_def)
  have rays0: "\<forall>g. Click g \<in> set ?evs \<longrightarrow> (\<forall>ms. set (g ms) \<subseteq> set ms)" by simp
  have rays1: "\<forall>g. Click g \<in> set (?evs @ [Click hit_nothing]) \<longrightarrow> (\<forall>ms. set (g ms) \<subseteq> set ms)"
    by (simp add: hit_nothing_def)
  have rays2: "\<forall>g. Click g \<in> set [] \<longrightarrow> (\<forall>ms. set (g ms) \<subseteq> set ms)" by simp
  have ray: "set (hit_agent k ms) \<subseteq> set ms" "set (hit_nothing ms) \<subseteq> set ms" for k ms
    by (simp_all add: hit_agent_def hit_nothing_def)
  have reg: "agentMeshes (init_scene mounted) = []" by (simp add: init_scene_def mounted_def)
  have a: "selected_id ?s1 = None"
    using C8_pick_hit_or_miss [of ?evs roster_state hit_nothing, OF r0 rays0 ray(2)] by (simp add: selected_id_def hit_nothing_def)
  have hits: "hit_agent ''s1'' (Object_values (agentMeshes ?s1))
                = [the (map_of (agentMeshes roster_state) ''s1'')]"
    by (simp add: roster_state_def scenario3_def plain_agent_def model_defs)
  obtain d where d: "userData_agentData (the (map_of (agentMeshes roster_state) ''s1'')) = Some d"
    "handleClick (hit_agent ''s1'') ?s1 = ?s1\<lparr>selectedAgent := Some d\<rparr>"
    using C8_pick_hit_or_miss [of "?evs @ [Click hit_nothing]" ?s1 "hit_agent ''s1''", OF r1 rays1 ray(1)] hits
    by blast
  have b: "selectedAgent (handleClick (hit_agent ''s1'') ?s1)
             = userData_agentData (the (map_of (agentMeshes roster_state) ''s1''))"
    unfolding d by simp
  have ad: "userData_agentData (the (map_of (agentMeshes roster_state) ''s1''))
              = Some (plain_agent ''s1'' ''solver'')"
    by (simp add: roster_state_def scenario3_def plain_agent_def model_defs)
  have c: "handleClick (hit_agent ''s1'') (init_scene mounted) = init_scene mounted"
    using C8_pick_hit_or_miss [of "[]" "init_scene mounted" "hit_agent ''s1''", OF r2 rays2 ray(1)] reg by simp
  show ?thesis using a b c ad by (simp add: selected_id_def plain_agent_def)
qed

section \<open>Events from an unknown sender\<close>





section \<open>Events whose edges have expired\<close>

text \<open>
  C1. The duplicate test looks at the edges that are tracked now. In the session below
  one announcement (sender \<open>c1\<close>, time stamp 100 s) is delivered with two solvers known:
  two edges (tubes 3 and 5) are created. Delivering the same snapshot again while they
  are tracked creates nothing. After the sweeps at 4001 ms and 4017 ms have removed both,
  delivering the same snapshot once more creates a second pair of edges (tubes 7 and 9)
  with the same key.
\<close>

theorem C1_expired_key_spawns_again:
  "tracked_refs broadcast_state = [3, 5]
   \<and> tracked_keys broadcast_state = [(''c1'', 100000), (''c1'', 100000)]
   \<and> tracked_refs (projr (run [Deliver (Some scenario3), AgentsEffect 2000, TransactionsEffect 2000]
                             broadcast_state)) = [3, 5]
   \<and> tracked_refs (projr (run [Frame 4001, Frame 4017] broadcast_state)) = []
   \<and> tracked_refs (projr (run [Frame 4001, Frame 4017, Deliver (Some scenario3),
                               AgentsEffect 4100, TransactionsEffect 4100] broadcast_state)) = [7, 9]
   \<and> tracked_keys (projr (run [Frame 4001, Frame 4017, Deliver (Some scenario3),
                               AgentsEffect 4100, TransactionsEffect 4100] broadcast_state))
       = [(''c1'', 100000), (''c1'', 100000)]"
  by (simp add: tracked_refs_def tracked_keys_def broadcast_state_def scenario3_def plain_agent_def model_defs
        animate_def forEach_edges.simps maxAge_def fade_def)

end
